theory Spec2Isabelle
  imports Complex_Main
begin

section \<open>Numbers\<close>

text \<open>
  The arrays of \<^verbatim>\<open>pyBLP.py\<close> hold IEEE doubles. The model keeps exact real arithmetic
  and adds the three special values that the code tests for or that \<^verbatim>\<open>np.log\<close> and
  \<^verbatim>\<open>np.exp\<close> produce: \<^verbatim>\<open>inf\<close>, \<^verbatim>\<open>-inf\<close> and \<^verbatim>\<open>nan\<close>. Rounding, signed zeros and
  overflow outside \<^verbatim>\<open>np.exp\<close> are not modelled.
\<close>

datatype fl = Fin real | PInf | NInf | NaN

fun isnan :: "fl \<Rightarrow> bool" where
  "isnan NaN = True"
| "isnan _ = False"

fun is_fin :: "fl \<Rightarrow> bool" where
  "is_fin (Fin _) = True"
| "is_fin _ = False"

fun fl_neg :: "fl \<Rightarrow> fl" where
  "fl_neg (Fin a) = Fin (- a)"
| "fl_neg PInf = NInf"
| "fl_neg NInf = PInf"
| "fl_neg NaN = NaN"

fun fl_add :: "fl \<Rightarrow> fl \<Rightarrow> fl" where
  "fl_add NaN _ = NaN"
| "fl_add _ NaN = NaN"
| "fl_add (Fin a) (Fin b) = Fin (a + b)"
| "fl_add PInf NInf = NaN"
| "fl_add NInf PInf = NaN"
| "fl_add PInf _ = PInf"
| "fl_add _ PInf = PInf"
| "fl_add NInf _ = NInf"
| "fl_add _ NInf = NInf"

definition fl_sub :: "fl \<Rightarrow> fl \<Rightarrow> fl" where
  "fl_sub a b = fl_add a (fl_neg b)"

fun fl_div :: "fl \<Rightarrow> fl \<Rightarrow> fl" where
  "fl_div NaN _ = NaN"
| "fl_div _ NaN = NaN"
| "fl_div (Fin a) (Fin b) =
     (if b \<noteq> 0 then Fin (a / b) else if a = 0 then NaN else if 0 < a then PInf else NInf)"
| "fl_div (Fin a) _ = Fin 0"
| "fl_div PInf (Fin b) = (if 0 \<le> b then PInf else NInf)"
| "fl_div NInf (Fin b) = (if 0 \<le> b then NInf else PInf)"
| "fl_div _ _ = NaN"

text \<open>
  \<^verbatim>\<open>np.exp\<close> is where the estimator leaves the finite range: a double overflows to
  \<^verbatim>\<open>inf\<close> above 709.782712893384 and underflows to zero below -745.1332191019412.
\<close>

fun fl_exp :: "fl \<Rightarrow> fl" where
  "fl_exp (Fin a) =
     (if 709782712893384 / 10 ^ 12 < a then PInf
      else if a < - (7451332191019412 / 10 ^ 13) then Fin 0
      else Fin (exp a))"
| "fl_exp PInf = PInf"
| "fl_exp NInf = Fin 0"
| "fl_exp NaN = NaN"

fun fl_log :: "fl \<Rightarrow> fl" where
  "fl_log (Fin a) = (if 0 < a then Fin (ln a) else if a = 0 then NInf else NaN)"
| "fl_log PInf = PInf"
| "fl_log NInf = NaN"
| "fl_log NaN = NaN"

fun fl_abs :: "fl \<Rightarrow> fl" where
  "fl_abs (Fin a) = Fin \<bar>a\<bar>"
| "fl_abs PInf = PInf"
| "fl_abs NInf = PInf"
| "fl_abs NaN = NaN"

fun fl_less :: "fl \<Rightarrow> fl \<Rightarrow> bool" where
  "fl_less NaN _ = False"
| "fl_less _ NaN = False"
| "fl_less (Fin a) (Fin b) = (a < b)"
| "fl_less _ NInf = False"
| "fl_less NInf _ = True"
| "fl_less PInf _ = False"
| "fl_less _ PInf = True"

definition fl_max2 :: "fl \<Rightarrow> fl \<Rightarrow> fl" where
  "fl_max2 a b = (if isnan a \<or> isnan b then NaN else if fl_less a b then b else a)"

text \<open>\<^verbatim>\<open>a.max()\<close> of a non-empty array; the caller handles the empty one.\<close>

definition fl_maximum :: "fl list \<Rightarrow> fl" where
  "fl_maximum xs = (case xs of [] \<Rightarrow> NaN | x # r \<Rightarrow> foldl fl_max2 x r)"

definition fl_sum :: "fl list \<Rightarrow> fl" where
  "fl_sum xs = foldl fl_add (Fin 0) xs"

definition fl_mean :: "fl list \<Rightarrow> fl" where
  "fl_mean xs = fl_div (fl_sum xs) (Fin (real (length xs)))"

text \<open>The finite content of an array, when every entry is finite.\<close>

fun fin_list :: "fl list \<Rightarrow> real list option" where
  "fin_list [] = Some []"
| "fin_list (Fin a # xs) = (case fin_list xs of None \<Rightarrow> None | Some r \<Rightarrow> Some (a # r))"
| "fin_list (_ # xs) = None"

fun fin_mat :: "fl list list \<Rightarrow> real list list option" where
  "fin_mat [] = Some []"
| "fin_mat (r # rs) =
     (case fin_list r of None \<Rightarrow> None
      | Some a \<Rightarrow> (case fin_mat rs of None \<Rightarrow> None | Some m \<Rightarrow> Some (a # m)))"

section \<open>Dense linear algebra of the numerical library\<close>

text \<open>
  One-dimensional arrays are lists, two-dimensional arrays are lists of rows. The
  operations below are those of numpy and scipy that the class calls, in exact
  arithmetic.
\<close>

type_synonym vec = "real list"
type_synonym mat = "real list list"

fun dot :: "vec \<Rightarrow> vec \<Rightarrow> real" where
  "dot (a # u) (b # w) = a * b + dot u w"
| "dot _ _ = 0"

definition ncols :: "'a list list \<Rightarrow> nat" where
  "ncols A = (case A of [] \<Rightarrow> 0 | r # _ \<Rightarrow> length r)"

text \<open>\<^verbatim>\<open>A.T\<close>\<close>

definition mT :: "'a list list \<Rightarrow> 'a list list" where
  "mT A = map (\<lambda>j. map (\<lambda>r. r ! j) A) [0..<ncols A]"

text \<open>\<^verbatim>\<open>A @ x\<close> for a vector \<open>x\<close>, \<^verbatim>\<open>A @ B\<close> for a matrix \<open>B\<close>\<close>

definition matvec :: "mat \<Rightarrow> vec \<Rightarrow> vec" where
  "matvec A x = map (\<lambda>r. dot r x) A"

definition matmul :: "mat \<Rightarrow> mat \<Rightarrow> mat" where
  "matmul A B = map (\<lambda>r. map (dot r) (mT B)) A"

definition vsub :: "vec \<Rightarrow> vec \<Rightarrow> vec" where
  "vsub u w = map2 (-) u w"

definition vadd :: "vec \<Rightarrow> vec \<Rightarrow> vec" where
  "vadd u w = map2 (+) u w"

definition smul :: "real \<Rightarrow> vec \<Rightarrow> vec" where
  "smul c u = map ((*) c) u"

definition mscale :: "real \<Rightarrow> mat \<Rightarrow> mat" where
  "mscale c A = map (smul c) A"

definition is_square :: "mat \<Rightarrow> bool" where
  "is_square A = (\<forall>r \<in> set A. length r = length A)"

subsection \<open>\<^verbatim>\<open>numpy.linalg.solve\<close>: elimination with partial pivoting\<close>

text \<open>
  A row of the system under elimination is \<open>(c, a, b)\<close>: the coefficient \<open>c\<close> of the
  unknown being eliminated, the coefficients \<open>a\<close> of the later unknowns, and the
  right-hand side \<open>b\<close>.
\<close>

type_synonym erow = "real \<times> vec \<times> real"

text \<open>The first position of the largest \<open>\<bar>c\<bar>\<close>, as LAPACK's pivot search returns it.\<close>

fun argmax_abs :: "real list \<Rightarrow> nat \<Rightarrow> nat \<Rightarrow> real \<Rightarrow> nat" where
  "argmax_abs [] i best m = best"
| "argmax_abs (c # cs) i best m =
     (if m < \<bar>c\<bar> then argmax_abs cs (Suc i) i \<bar>c\<bar> else argmax_abs cs (Suc i) best m)"

definition pivot_index :: "erow list \<Rightarrow> nat" where
  "pivot_index rows = (case rows of [] \<Rightarrow> 0
     | (c, _, _) # rest \<Rightarrow> argmax_abs (map fst rest) 1 0 \<bar>c\<bar>)"

text \<open>The rows left once the pivot row has been swapped to the top.\<close>

definition swap_out :: "nat \<Rightarrow> erow list \<Rightarrow> erow list" where
  "swap_out p rows = (if p = 0 then tl rows else (tl rows)[p - 1 := hd rows])"

definition reduce_row :: "erow \<Rightarrow> erow \<Rightarrow> vec \<times> real" where
  "reduce_row piv row =
     (case piv of (pc, pa, pb) \<Rightarrow> case row of (c, a, b) \<Rightarrow>
        (vsub a (smul (c / pc) pa), b - (c / pc) * pb))"

definition split_row :: "vec \<times> real \<Rightarrow> erow" where
  "split_row rb = (case rb of (r, b) \<Rightarrow> (case r of [] \<Rightarrow> (0, [], b) | c # a \<Rightarrow> (c, a, b)))"

fun elim :: "nat \<Rightarrow> (vec \<times> real) list \<Rightarrow> vec option" where
  "elim 0 sys = Some []"
| "elim (Suc n) sys =
     (let rows = map split_row sys; p = pivot_index rows in
      if rows = [] then None
      else (case rows ! p of (pc, pa, pb) \<Rightarrow>
        if pc = 0 then None
        else (case elim n (map (reduce_row (pc, pa, pb)) (swap_out p rows)) of
                None \<Rightarrow> None
              | Some xs \<Rightarrow> Some ((pb - dot pa xs) / pc # xs))))"

text \<open>\<^verbatim>\<open>solve(A, b)\<close> with a vector \<open>b\<close>: \<open>None\<close> is \<^verbatim>\<open>LinAlgError\<close> (singular matrix).\<close>

definition solve_vec :: "mat \<Rightarrow> vec \<Rightarrow> vec option" where
  "solve_vec A b = elim (length A) (zip A b)"

datatype error =
    Exception_nan_in_diffs
  | Exception_theta_not_initialized
  | AttributeError string
  | ValueError
  | TypeError
  | IndexError
  | LinAlgError
  | ZeroDivisionError
  | NonFinite

text \<open>
  \<open>NonFinite\<close> is not an exception of the program: it marks the runs in which numpy
  goes on computing with \<^verbatim>\<open>inf\<close> or \<^verbatim>\<open>nan\<close> entries inside the linear algebra, which
  this model, exact on finite values, does not follow.
\<close>

definition solve_v :: "mat \<Rightarrow> vec \<Rightarrow> error + vec" where
  "solve_v A b =
     (if \<not> is_square A then Inl LinAlgError
      else if length b \<noteq> length A then Inl ValueError
      else (case solve_vec A b of None \<Rightarrow> Inl LinAlgError | Some x \<Rightarrow> Inr x))"

fun those_vec :: "vec option list \<Rightarrow> vec list option" where
  "those_vec [] = Some []"
| "those_vec (None # _) = None"
| "those_vec (Some x # r) = (case those_vec r of None \<Rightarrow> None | Some xs \<Rightarrow> Some (x # xs))"

text \<open>The matrix whose columns are the given vectors of length \<open>n\<close>.\<close>

definition from_cols :: "nat \<Rightarrow> vec list \<Rightarrow> mat" where
  "from_cols n cs = map (\<lambda>i. map (\<lambda>c. c ! i) cs) [0..<n]"

text \<open>
  \<^verbatim>\<open>solve(A, B)\<close> with a matrix \<open>B\<close>: LAPACK factorises \<open>A\<close> once and solves for each
  column of \<open>B\<close>; the factorisation fails on a zero pivot column whatever \<open>B\<close> is.
\<close>

definition solve_m :: "mat \<Rightarrow> mat \<Rightarrow> error + mat" where
  "solve_m A B =
     (if \<not> is_square A then Inl LinAlgError
      else if length B \<noteq> length A then Inl ValueError
      else (case solve_vec A (replicate (length A) 0) of None \<Rightarrow> Inl LinAlgError
        | Some _ \<Rightarrow> (case those_vec (map (solve_vec A) (mT B)) of
              None \<Rightarrow> Inl LinAlgError
            | Some xs \<Rightarrow> Inr (from_cols (length A) xs))))"

subsection \<open>\<^verbatim>\<open>numpy.linalg.cholesky\<close> and \<^verbatim>\<open>scipy.linalg.cho_solve\<close>\<close>

text \<open>
  Row \<open>i\<close> of the factor from the rows before it: \<open>acc\<close> holds the entries of the row
  found so far, \<open>Ls\<close> the earlier rows not yet used, \<open>a\<close> the rest of row \<open>i\<close> of the
  input. Only the lower triangle of the input is read.
\<close>

fun chol_row :: "mat \<Rightarrow> vec \<Rightarrow> vec \<Rightarrow> vec option" where
  "chol_row [] (a # _) acc =
     (let d = a - dot acc acc in if d \<le> 0 then None else Some (acc @ [sqrt d]))"
| "chol_row (Lj # Ls) (a # r) acc = chol_row Ls r (acc @ [(a - dot acc Lj) / last Lj])"
| "chol_row _ [] acc = None"

fun chol_rows :: "mat \<Rightarrow> mat \<Rightarrow> mat option" where
  "chol_rows [] Ls = Some Ls"
| "chol_rows (a # A) Ls =
     (case chol_row Ls a [] of None \<Rightarrow> None | Some r \<Rightarrow> chol_rows A (Ls @ [r]))"

text \<open>\<open>None\<close> is \<^verbatim>\<open>LinAlgError\<close> (matrix not positive definite).\<close>

definition cholesky :: "mat \<Rightarrow> mat option" where
  "cholesky A =
     (if \<not> is_square A then None
      else (case chol_rows A [] of None \<Rightarrow> None
        | Some Ls \<Rightarrow> Some (map (\<lambda>r. r @ replicate (length A - length r) 0) Ls)))"

text \<open>Forward substitution with the lower triangle of \<open>L\<close>: solves \<open>L y = b\<close>.\<close>

fun fwd_subst :: "mat \<Rightarrow> vec \<Rightarrow> vec" where
  "fwd_subst ((l # _) # Ls) (b # bs) =
     (let y = b / l in y # fwd_subst (map tl Ls) (map2 (\<lambda>r b'. b' - hd r * y) Ls bs))"
| "fwd_subst _ _ = []"

text \<open>Back substitution with the lower triangle of \<open>L\<close>: solves \<open>L\<^sup>T x = y\<close>.\<close>

fun bwd_subst :: "mat \<Rightarrow> vec \<Rightarrow> vec" where
  "bwd_subst ((l # _) # Ls) (y # ys) =
     (let xs = bwd_subst (map tl Ls) ys in (y - dot (map hd Ls) xs) / l # xs)"
| "bwd_subst _ _ = []"

text \<open>\<^verbatim>\<open>cho_solve((L, True), b)\<close> for a vector and for a matrix right-hand side.\<close>

definition cho_solve_v :: "mat \<Rightarrow> vec \<Rightarrow> vec" where
  "cho_solve_v L b = bwd_subst L (fwd_subst L b)"

definition cho_solve_m :: "mat \<Rightarrow> mat \<Rightarrow> mat" where
  "cho_solve_m L B = from_cols (length L) (map (cho_solve_v L) (mT B))"


section \<open>The estimator's data and state\<close>

text \<open>The \<^verbatim>\<open>data\<close> object handed to \<^verbatim>\<open>BLP.__init__\<close>.\<close>

record data =
  data_s_jt :: vec
  data_v :: mat
  data_D :: mat
  data_x1 :: mat
  data_x2 :: mat
  data_Z :: mat
  data_nmkt :: nat
  data_nbrand :: nat
  data_nsimind :: nat

text \<open>
  The attributes of a \<^verbatim>\<open>BLP\<close> instance. An attribute of type \<open>option\<close> that is \<open>None\<close>
  is Python's \<^verbatim>\<open>None\<close> for \<open>\<theta>\<close> and \<open>ix_\<theta>_T\<close>, and an attribute not yet assigned for
  \<open>\<theta>1\<close>, \<open>\<xi>\<close> and \<open>ix_\<theta>\<close>. No method of the class assigns \<open>ix_\<theta>\<close>. An index array
  is a list of index pairs; \<open>LinvW\<close> is the factor of the pair \<^verbatim>\<open>(L, True)\<close>.
\<close>

record blp =
  s_jt :: vec
  ln_s_jt :: "fl list"
  v :: mat
  D :: mat
  x1 :: mat
  x2 :: mat
  Z :: mat
  nmkt :: nat
  nbrand :: nat
  nsimind :: nat
  nx2 :: nat
  nD :: nat
  LinvW :: mat
  Z_x1 :: mat
  etol :: real
  iter_limit :: nat
  GMM_old :: real
  GMM_diff :: real
  s_0t :: vec
  y :: "fl list"
  \<delta> :: "fl list"
  s :: "fl list"
  \<theta> :: "mat option"
  ix_\<theta>_T :: "(nat \<times> nat) list option"
  ix_\<theta> :: "(nat \<times> nat) list option"
  \<theta>1 :: "vec option"
  \<xi> :: "vec option"

text \<open>
  The compiled module \<^verbatim>\<open>_BLP\<close> is not part of the sources; its three functions are
  parameters of the model.
\<close>

record BLP_module =
  cal_mu :: "vec \<Rightarrow> mat \<Rightarrow> mat \<Rightarrow> mat \<Rightarrow> mat \<Rightarrow> nat \<Rightarrow> nat \<Rightarrow> nat \<Rightarrow> mat"
  cal_s :: "fl list list \<Rightarrow> nat \<Rightarrow> nat \<Rightarrow> nat \<Rightarrow> fl list"
  cal_ind_choice_prob :: "fl list list \<Rightarrow> nat \<Rightarrow> nat \<Rightarrow> nat \<Rightarrow> fl list list"

text \<open>
  Modelled from the spec: \<^verbatim>\<open>_BLP.cal_mu\<close>, \<^verbatim>\<open>_BLP.cal_ind_choice_prob\<close> and
  \<^verbatim>\<open>_BLP.cal_s\<close> (the Market Share Simulator): the random-coefficient part of each
  consumer's utility, the choice probability of each product and consumer with an
  outside option of utility zero, and the share of each product as the average of
  the choice probabilities over the consumers of its market. The draws of market
  \<open>m\<close> for characteristic \<open>k\<close> are the entries \<open>nsimind * k + i\<close> of row \<open>m\<close>, as
  \<^verbatim>\<open>cal_jacobian\<close> reads them.
\<close>

definition spec_cal_mu ::
  "vec \<Rightarrow> mat \<Rightarrow> mat \<Rightarrow> mat \<Rightarrow> mat \<Rightarrow> nat \<Rightarrow> nat \<Rightarrow> nat \<Rightarrow> mat" where
  "spec_cal_mu th_v th_D vv DD xx2 n_mkt n_sim n_brand =
     map (\<lambda>j. map (\<lambda>i.
        (\<Sum>k\<leftarrow>[0..<length th_v]. xx2 ! j ! k *
           (th_v ! k * vv ! (j div n_brand) ! (n_sim * k + i)
            + (\<Sum>d\<leftarrow>[0..<ncols th_D]. th_D ! k ! d * DD ! (j div n_brand) ! (n_sim * d + i)))))
        [0..<n_sim]) [0..<n_mkt * n_brand]"

definition spec_cal_ind_choice_prob :: "fl list list \<Rightarrow> nat \<Rightarrow> nat \<Rightarrow> nat \<Rightarrow> fl list list" where
  "spec_cal_ind_choice_prob e n_mkt n_sim n_brand =
     map (\<lambda>j. map (\<lambda>i.
        fl_div (e ! j ! i)
          (fl_add (Fin 1)
             (fl_sum (map (\<lambda>k. e ! k ! i)
                [(j div n_brand) * n_brand..<(j div n_brand) * n_brand + n_brand]))))
        [0..<n_sim]) [0..<n_mkt * n_brand]"

definition spec_cal_s :: "fl list list \<Rightarrow> nat \<Rightarrow> nat \<Rightarrow> nat \<Rightarrow> fl list" where
  "spec_cal_s e n_mkt n_sim n_brand = map fl_mean (spec_cal_ind_choice_prob e n_mkt n_sim n_brand)"

definition spec_BLP :: BLP_module where
  "spec_BLP = \<lparr>cal_mu = spec_cal_mu, cal_s = spec_cal_s,
               cal_ind_choice_prob = spec_cal_ind_choice_prob\<rparr>"

section \<open>\<^verbatim>\<open>BLP.__init__\<close>\<close>

text \<open>\<^verbatim>\<open>a.reshape(n, -1)\<close>, \<open>None\<close> being ValueError.\<close>

definition reshape_rows :: "nat \<Rightarrow> 'a list \<Rightarrow> 'a list list option" where
  "reshape_rows n xs =
     (if n = 0 \<or> length xs mod n \<noteq> 0 then None
      else Some (map (\<lambda>i. take (length xs div n) (drop (i * (length xs div n)) xs)) [0..<n]))"

text \<open>
  \<^verbatim>\<open>cho_solve\<close> checks its right-hand side for \<^verbatim>\<open>inf\<close> and \<^verbatim>\<open>nan\<close> and raises
  ValueError, so a non-finite vector never enters the linear algebra behind it.
\<close>

definition BLP_init :: "data \<Rightarrow> error + blp" where
  "BLP_init dt =
     (let sj = data_s_jt dt; X = data_x1 dt; Zm = data_Z dt in
      if data_nsimind dt = 0 then Inl ZeroDivisionError
      else (case cholesky (matmul (mT Zm) Zm) of None \<Rightarrow> Inl LinAlgError
      | Some L \<Rightarrow>
        (let ZX = matmul (mT Zm) X in
         case reshape_rows (data_nmkt dt) sj of None \<Rightarrow> Inl ValueError
         | Some sh \<Rightarrow>
           (let s0 = map (\<lambda>row. 1 - sum_list row) sh;
                yy = concat (map2 (\<lambda>row out. map (\<lambda>a. fl_sub (fl_log (Fin a)) (fl_log (Fin out))) row)
                               sh s0) in
            case fin_list yy of None \<Rightarrow> Inl ValueError
            | Some yr \<Rightarrow>
              (case solve_v (matmul (mT ZX) (cho_solve_m L ZX))
                            (matvec (mT ZX) (cho_solve_v L (matvec (mT Zm) yr))) of
                 Inl e \<Rightarrow> Inl e
               | Inr t1 \<Rightarrow>
                 Inr \<lparr>s_jt = sj, ln_s_jt = map (\<lambda>a. fl_log (Fin a)) sj,
                      v = data_v dt, D = data_D dt, x1 = X, x2 = data_x2 dt, Z = Zm,
                      nmkt = data_nmkt dt, nbrand = data_nbrand dt, nsimind = data_nsimind dt,
                      nx2 = ncols (data_x2 dt), nD = ncols (data_D dt) div data_nsimind dt,
                      LinvW = L, Z_x1 = ZX, etol = 1 / 10 ^ 6, iter_limit = 200,
                      GMM_old = 0, GMM_diff = 1, s_0t = s0, y = yy,
                      \<delta> = map Fin (matvec X t1),
                      s = map (\<lambda>_. Fin 0) (matvec X t1),
                      \<theta> = None, ix_\<theta>_T = None, ix_\<theta> = None, \<theta>1 = None, \<xi> = None\<rparr>)))))"

section \<open>\<^verbatim>\<open>BLP.cal_\<delta>\<close>: the contraction mapping\<close>

text \<open>\<^verbatim>\<open>np.exp(\<delta>.reshape(-1, 1) + \<mu>)\<close>\<close>

definition exp_Xb :: "fl list \<Rightarrow> mat \<Rightarrow> fl list list" where
  "exp_Xb d mu = map2 (\<lambda>dj row. map (\<lambda>m. fl_exp (fl_add dj (Fin m))) row) d mu"

text \<open>\<^verbatim>\<open>ln_s_jt - np.log(s)\<close>\<close>

definition log_diff :: "fl list \<Rightarrow> fl list \<Rightarrow> fl list" where
  "log_diff lns sh = map2 fl_sub lns (map fl_log sh)"

text \<open>\<^verbatim>\<open>(abs(diff).max() < self.etol) and (abs(diff).mean() < 1e-3)\<close>\<close>

definition converged :: "real \<Rightarrow> fl list \<Rightarrow> bool" where
  "converged tol diff \<longleftrightarrow>
     fl_less (fl_maximum (map fl_abs diff)) (Fin tol)
     \<and> fl_less (fl_mean (map fl_abs diff)) (Fin (1 / 1000))"

text \<open>
  The \<^verbatim>\<open>while True\<close> loop. \<open>sim\<close> is the simulated share of the current \<open>\<delta>\<close>
  (\<^verbatim>\<open>np.exp\<close> followed by \<^verbatim>\<open>_BLP.cal_s\<close>), \<open>lns\<close> is \<^verbatim>\<open>ln_s_jt\<close>. The loop works on
  \<^verbatim>\<open>self.\<delta>\<close> and \<^verbatim>\<open>self.s\<close> in place, so their last values are part of the result also
  when it raises. \<open>None\<close> is a loop that never ends. \<^verbatim>\<open>max\<close> of an empty array raises
  ValueError.
\<close>

partial_function (option) cal_\<delta>_loop ::
  "(fl list \<Rightarrow> fl list) \<Rightarrow> fl list \<Rightarrow> real \<Rightarrow> fl list \<Rightarrow> nat
     \<Rightarrow> ((error + unit) \<times> fl list \<times> fl list \<times> nat) option" where
  "cal_\<delta>_loop sim lns tol d niter =
     (let sh = sim d; diff = log_diff lns sh in
      if list_ex isnan diff then Some (Inl Exception_nan_in_diffs, d, sh, niter)
      else if diff = [] then Some (Inl ValueError, map2 fl_add d diff, sh, niter)
      else if converged tol diff then Some (Inr (), map2 fl_add d diff, sh, niter)
      else cal_\<delta>_loop sim lns tol (map2 fl_add d diff) (Suc niter))"

text \<open>\<open>\<theta>[:, 0]\<close> raises IndexError on a matrix without columns.\<close>

definition no_cols :: "mat \<Rightarrow> bool" where
  "no_cols th = list_ex (\<lambda>r. r = []) th"

text \<open>
  The simulated shares of a \<open>\<delta>\<close> (lines 120 to 122). \<^verbatim>\<open>_BLP.cal_s\<close> writes them into the
  buffer \<^verbatim>\<open>self.s\<close>, which \<^verbatim>\<open>BLP.__init__\<close> creates with the shape of \<open>\<delta>\<close> and no method
  replaces; the model returns the filled buffer and does not follow a buffer of
  another shape.
\<close>

definition simulate :: "BLP_module \<Rightarrow> blp \<Rightarrow> mat \<Rightarrow> fl list \<Rightarrow> fl list" where
  "simulate E st th =
     (let mu = cal_mu E (map hd th) (map tl th) (v st) (D st) (x2 st)
                 (nmkt st) (nsimind st) (nbrand st)
      in (\<lambda>d. cal_s E (exp_Xb d mu) (nmkt st) (nsimind st) (nbrand st)))"

definition cal_\<delta> :: "BLP_module \<Rightarrow> blp \<Rightarrow> mat \<Rightarrow> ((error + fl list) \<times> blp) option" where
  "cal_\<delta> E st th =
     (if no_cols th then Some (Inl IndexError, st)
      else (case cal_\<delta>_loop (simulate E st th) (ln_s_jt st) (etol st) (\<delta> st) 0 of
              None \<Rightarrow> None
            | Some (r, d', sh, n) \<Rightarrow>
                Some (case r of Inl e \<Rightarrow> Inl e | Inr _ \<Rightarrow> Inr d', st\<lparr>\<delta> := d', s := sh\<rparr>)))"


section \<open>\<^verbatim>\<open>BLP.GMM\<close>: the objective\<close>

text \<open>The candidate is a one-dimensional or a two-dimensional array.\<close>

datatype cand = Vec vec | Mat mat

text \<open>
  \<^verbatim>\<open>np.nonzero(\<theta>.T)\<close>: the positions \<open>(a, b)\<close> of \<open>\<theta>.T\<close>, in row-major order, whose
  entry \<open>\<theta>[b][a]\<close> is not zero.
\<close>

definition nonzero_T :: "mat \<Rightarrow> (nat \<times> nat) list" where
  "nonzero_T th = [(a, b). a \<leftarrow> [0..<ncols th], b \<leftarrow> [0..<length th], th ! b ! a \<noteq> 0]"

definition put_T :: "(nat \<times> nat) \<times> real \<Rightarrow> mat \<Rightarrow> mat" where
  "put_T e M = (case e of ((a, b), x) \<Rightarrow> M[b := (M ! b)[a := x]])"

text \<open>
  \<^verbatim>\<open>\<theta>.T[ix] = vals\<close>: an index outside the matrix raises IndexError; the values
  must be as many as the index pairs, or a single value written everywhere, else
  ValueError.
\<close>

definition assign_T :: "mat \<Rightarrow> (nat \<times> nat) list \<Rightarrow> vec \<Rightarrow> error + mat" where
  "assign_T th ix vals =
     (if \<exists>(a, b) \<in> set ix. \<not> (b < length th \<and> a < length (th ! b)) then Inl IndexError
      else if length vals = length ix then Inr (fold put_T (zip ix vals) th)
      else if length vals = 1 then Inr (fold put_T (zip ix (replicate (length ix) (hd vals))) th)
      else Inl ValueError)"

text \<open>\<^verbatim>\<open>\<theta>[:] = C\<close> for an \<open>m \<times> n\<close> matrix \<open>\<theta>\<close>, with numpy's broadcasting; \<open>None\<close> is ValueError.\<close>

definition bcast :: "nat \<Rightarrow> nat \<Rightarrow> mat \<Rightarrow> mat option" where
  "bcast m n C =
     (if (length C = m \<or> length C = 1) \<and> (ncols C = n \<or> ncols C = 1)
      then Some (map (\<lambda>i. map (\<lambda>j. C ! (if length C = 1 then 0 else i)
                                      ! (if ncols C = 1 then 0 else j)) [0..<n]) [0..<m])
      else None)"

text \<open>Lines 142 to 155: the parameter matrix, the mask, and the write of the candidate.\<close>

definition GMM_set_\<theta> :: "blp \<Rightarrow> cand \<Rightarrow> (error + mat) \<times> blp" where
  "GMM_set_\<theta> st c =
     (case (\<theta> st, c) of
        (None, Vec _) \<Rightarrow> (Inl Exception_theta_not_initialized, st)
      | _ \<Rightarrow>
        (let th = (case \<theta> st of None \<Rightarrow> (case c of Mat M \<Rightarrow> M | Vec _ \<Rightarrow> []) | Some t \<Rightarrow> t);
             ix = (case ix_\<theta>_T st of None \<Rightarrow> nonzero_T th | Some i \<Rightarrow> i);
             st1 = st\<lparr>\<theta> := Some th, ix_\<theta>_T := Some ix\<rparr>
         in case c of
              Vec cv \<Rightarrow> (case assign_T th ix cv of
                           Inl e \<Rightarrow> (Inl e, st1)
                         | Inr th' \<Rightarrow> (Inr th', st1\<lparr>\<theta> := Some th'\<rparr>))
            | Mat M \<Rightarrow> (case bcast (length th) (ncols th) M of
                          None \<Rightarrow> (Inl ValueError, st1)
                        | Some th' \<Rightarrow> (Inr th', st1\<lparr>\<theta> := Some th'\<rparr>))))"

text \<open>Lines 161 to 167: the adaptive tolerance.\<close>

definition adaptive_etol :: "real \<Rightarrow> real" where
  "adaptive_etol gd =
     (if gd < 1 / 10 ^ 6 then 1 / 10 ^ 13 else if gd < 1 / 10 ^ 3 then 1 / 10 ^ 12 else 1 / 10 ^ 9)"

text \<open>Lines 175 to 195, on a finite \<open>\<delta>\<close>.\<close>

definition GMM_linear :: "blp \<Rightarrow> vec \<Rightarrow> (error + real) \<times> blp" where
  "GMM_linear st d =
     (let Z_\<delta> = matvec (mT (Z st)) d
      in case solve_v (matmul (mT (Z_x1 st)) (cho_solve_m (LinvW st) (Z_x1 st)))
                      (matvec (mT (Z_x1 st)) (cho_solve_v (LinvW st) Z_\<delta>)) of
           Inl e \<Rightarrow> (Inl e, st)
         | Inr t1 \<Rightarrow>
            (let xi = vsub d (matvec (x1 st) t1);
                 Z_\<xi> = matvec (mT (Z st)) xi;
                 g = dot Z_\<xi> (cho_solve_v (LinvW st) Z_\<xi>)
             in (Inr g, st\<lparr>\<theta>1 := Some t1, \<xi> := Some xi,
                           GMM_diff := \<bar>GMM_old st - g\<bar>, GMM_old := g\<rparr>)))"

text \<open>
  The result is \<open>None\<close> when the contraction mapping never returns; otherwise the value
  returned or the exception raised, with the state the call leaves behind.
\<close>

definition GMM :: "BLP_module \<Rightarrow> blp \<Rightarrow> cand \<Rightarrow> ((error + real) \<times> blp) option" where
  "GMM E st c =
     (case GMM_set_\<theta> st c of
        (Inl e, st1) \<Rightarrow> Some (Inl e, st1)
      | (Inr th, st1) \<Rightarrow>
         if no_cols th then Some (Inl IndexError, st1)
         else (case cal_\<delta> E (st1\<lparr>etol := adaptive_etol (GMM_diff st1)\<rparr>) th of
                 None \<Rightarrow> None
               | Some (Inl e, st2) \<Rightarrow> Some (Inl e, st2)
               | Some (Inr d, st2) \<Rightarrow>
                   if list_ex isnan d then Some (Inr (10 ^ 10), st2)
                   else (case fin_list d of
                           None \<Rightarrow> Some (Inl ValueError, st2)
                         | Some dr \<Rightarrow> Some (GMM_linear st2 dr))))"

section \<open>\<^verbatim>\<open>BLP.cal_jacobian\<close>\<close>

definition vmul :: "vec \<Rightarrow> vec \<Rightarrow> vec" where
  "vmul u w = map2 (*) u w"

definition mean :: "vec \<Rightarrow> real" where
  "mean u = sum_list u / real (length u)"

text \<open>\<^verbatim>\<open>M.cumsum(axis=0)\<close>\<close>

fun cumsum_from :: "vec \<Rightarrow> mat \<Rightarrow> mat" where
  "cumsum_from acc [] = []"
| "cumsum_from acc (r # rs) = vadd acc r # cumsum_from (vadd acc r) rs"

definition cumsum_rows :: "mat \<Rightarrow> mat" where
  "cumsum_rows M = cumsum_from (replicate (ncols M) 0) M"

text \<open>
  One column of \<open>f1\<close> (lines 281 to 286, and 298 to 303): \<open>W\<close> is the weighted
  characteristic \<^verbatim>\<open>xv\<close> or \<^verbatim>\<open>xd\<close>, \<open>P\<close> the choice probabilities.
\<close>

definition f1_col :: "mat \<Rightarrow> nat list \<Rightarrow> nat list \<Rightarrow> mat \<Rightarrow> vec" where
  "f1_col P cdid cdindex W =
     (let temp = cumsum_rows (map2 vmul W P);
          sum1 = map (\<lambda>i. temp ! i) cdindex;
          sum1' = (case sum1 of [] \<Rightarrow> [] | r # rs \<Rightarrow> r # map2 vsub rs (butlast sum1))
      in map (\<lambda>j. mean (vmul (P ! j) (vsub (W ! j) (sum1' ! (cdid ! j))))) [0..<length P])"

text \<open>\<^verbatim>\<open>x2[:, k].reshape(-1, 1) @ np.ones((1, nsimind))\<close> times the block \<open>k\<close> of the draws \<open>V\<close>.\<close>

definition weighted :: "mat \<Rightarrow> mat \<Rightarrow> nat list \<Rightarrow> nat \<Rightarrow> nat \<Rightarrow> nat \<Rightarrow> mat" where
  "weighted X V cdid ns k blk =
     map (\<lambda>j. map (\<lambda>i. X ! j ! k * V ! (cdid ! j) ! (ns * blk + i)) [0..<ns]) [0..<length X]"

text \<open>\<^verbatim>\<open>np.nonzero(\<theta>.T.ravel())[0]\<close>\<close>

definition rel_cols :: "mat \<Rightarrow> nat list" where
  "rel_cols th = [a * length th + b. a \<leftarrow> [0..<ncols th], b \<leftarrow> [0..<length th], th ! b ! a \<noteq> 0]"

definition msub :: "mat \<Rightarrow> mat \<Rightarrow> mat" where
  "msub A B = map2 vsub A B"

text \<open>\<^verbatim>\<open>np.diag(d)\<close>\<close>

definition diag :: "vec \<Rightarrow> mat" where
  "diag d = map (\<lambda>i. map (\<lambda>j. if i = j then d ! i else 0) [0..<length d]) [0..<length d]"

text \<open>Line 317, for the block \<open>Pm\<close> of one market.\<close>

definition market_H :: "nat \<Rightarrow> mat \<Rightarrow> mat" where
  "market_H ns Pm =
     map (map (\<lambda>h. h / real ns)) (msub (diag (map sum_list Pm)) (matmul Pm (mT Pm)))"

definition pick_cols :: "nat list \<Rightarrow> mat \<Rightarrow> mat" where
  "pick_cols rel M = map (\<lambda>r. map (\<lambda>c. r ! c) rel) M"

definition mneg :: "mat \<Rightarrow> mat" where
  "mneg A = map (map uminus) A"

definition block :: "nat \<Rightarrow> nat \<Rightarrow> 'a list \<Rightarrow> 'a list" where
  "block nb i M = take nb (drop (i * nb) M)"

text \<open>Lines 314 to 321: the loop over the markets, which stops at the first singular \<open>H\<close>.\<close>

fun jac_blocks :: "mat \<Rightarrow> mat \<Rightarrow> nat list \<Rightarrow> nat \<Rightarrow> nat \<Rightarrow> nat list \<Rightarrow> error + mat" where
  "jac_blocks P f1 rel nb ns [] = Inr []"
| "jac_blocks P f1 rel nb ns (i # r) =
     (case solve_m (market_H ns (block nb i P)) (pick_cols rel (block nb i f1)) of
        Inl e \<Rightarrow> Inl e
      | Inr X \<Rightarrow> (case jac_blocks P f1 rel nb ns r of
                    Inl e \<Rightarrow> Inl e
                  | Inr F \<Rightarrow> Inr (mneg X @ F)))"

definition cal_f1 :: "blp \<Rightarrow> mat \<Rightarrow> mat \<Rightarrow> mat" where
  "cal_f1 st th P =
     (let nk = ncols (x2 st); n_D = ncols th - 1; ns = nsimind st;
          cdid = concat (map (replicate (nbrand st)) [0..<nmkt st]);
          cdindex = map (\<lambda>i. (i + 1) * nbrand st - 1) [0..<nmkt st];
          cols_v = map (\<lambda>k. f1_col P cdid cdindex (weighted (x2 st) (v st) cdid ns k k)) [0..<nk];
          cols_D = concat (map (\<lambda>d. map (\<lambda>k.
                      f1_col P cdid cdindex (weighted (x2 st) (D st) cdid ns k d)) [0..<nk])
                    [0..<n_D])
      in from_cols (length (\<delta> st)) (cols_v @ cols_D))"

definition cal_jacobian :: "BLP_module \<Rightarrow> blp \<Rightarrow> mat \<Rightarrow> error + mat" where
  "cal_jacobian E st th =
     (if no_cols th then Inl IndexError
      else
       (let mu = cal_mu E (map hd th) (map tl th) (v st) (D st) (x2 st)
                   (nmkt st) (nsimind st) (nbrand st);
            ind_choice_prob = cal_ind_choice_prob E (exp_Xb (\<delta> st) mu)
                   (nmkt st) (nsimind st) (nbrand st)
        in case fin_mat ind_choice_prob of
             None \<Rightarrow> Inl NonFinite
           | Some P \<Rightarrow>
               if nbrand st = 0 then Inl ZeroDivisionError
               else jac_blocks P (cal_f1 st th P) (rel_cols th) (nbrand st) (nsimind st)
                      [0..<nmkt st]))"

section \<open>\<^verbatim>\<open>BLP.gradient_GMM\<close>\<close>

definition put :: "(nat \<times> nat) \<times> real \<Rightarrow> mat \<Rightarrow> mat" where
  "put e M = (case e of ((a, b), x) \<Rightarrow> M[a := (M ! a)[b := x]])"

text \<open>\<^verbatim>\<open>\<theta>[ix] = vals\<close>\<close>

definition assign :: "mat \<Rightarrow> (nat \<times> nat) list \<Rightarrow> vec \<Rightarrow> error + mat" where
  "assign th ix vals =
     (if \<exists>(a, b) \<in> set ix. \<not> (a < length th \<and> b < length (th ! a)) then Inl IndexError
      else if length vals = length ix then Inr (fold put (zip ix vals) th)
      else if length vals = 1 then Inr (fold put (zip ix (replicate (length ix) (hd vals))) th)
      else Inl ValueError)"

text \<open>
  Line 211 reads \<^verbatim>\<open>self.ix_\<theta>\<close>, which raises AttributeError while the attribute does not
  exist, then \<^verbatim>\<open>self.\<xi>\<close>. A \<open>\<theta>\<close> that is still \<^verbatim>\<open>None\<close> cannot be written to (TypeError).
\<close>

definition gradient_GMM :: "BLP_module \<Rightarrow> blp \<Rightarrow> cand \<Rightarrow> (error + vec) \<times> blp" where
  "gradient_GMM E st c =
     (case ix_\<theta> st of
        None \<Rightarrow> (Inl (AttributeError ''ix_theta''), st)
      | Some ix \<Rightarrow>
        (case \<xi> st of
           None \<Rightarrow> (Inl (AttributeError ''xi''), st)
         | Some xi \<Rightarrow>
           (case \<theta> st of
              None \<Rightarrow> (Inl TypeError, st)
            | Some th \<Rightarrow>
              (case (case c of Vec cv \<Rightarrow> assign th ix cv
                      | Mat M \<Rightarrow> (case bcast (length th) (ncols th) M of
                                    None \<Rightarrow> Inl ValueError | Some t \<Rightarrow> Inr t)) of
                 Inl e \<Rightarrow> (Inl e, st)
               | Inr th' \<Rightarrow>
                 (case cal_jacobian E (st\<lparr>\<theta> := Some th'\<rparr>) th' of
                    Inl e \<Rightarrow> (Inl e, st\<lparr>\<theta> := Some th'\<rparr>)
                  | Inr jacob \<Rightarrow>
                     (Inr (matvec (matmul (matmul (mscale 2 (mT jacob)) (Z st))
                                     (cho_solve_m (LinvW st) (mT (Z st)))) xi),
                      st\<lparr>\<theta> := Some th'\<rparr>))))))"

section \<open>\<^verbatim>\<open>BLP.cal_varcov\<close>\<close>

text \<open>\<^verbatim>\<open>Z * \<xi>.reshape(-1, 1)\<close>\<close>

definition scale_rows :: "mat \<Rightarrow> vec \<Rightarrow> mat" where
  "scale_rows A x = map2 (\<lambda>r c. map (\<lambda>z. z * c) r) A x"

text \<open>\<^verbatim>\<open>np.c_[A, B]\<close>\<close>

definition hstack :: "mat \<Rightarrow> mat \<Rightarrow> mat" where
  "hstack A B = map2 (@) A B"

text \<open>Lines 228 to 242, given the residual and the Jacobian.\<close>

definition varcov_of :: "mat \<Rightarrow> mat \<Rightarrow> mat \<Rightarrow> vec \<Rightarrow> mat \<Rightarrow> error + mat" where
  "varcov_of L Zm X xi jacob =
     (let Zres = scale_rows Zm xi;
          \<Omega> = matmul (mT Zres) Zres;
          G = mT (matmul (mT (hstack X jacob)) Zm);
          WG = cho_solve_m L G;
          W\<Omega> = cho_solve_m L \<Omega>
      in case solve_m (matmul (mT G) WG) (matmul (matmul (mT G) W\<Omega>) WG) of
           Inl e \<Rightarrow> Inl e
         | Inr t \<Rightarrow> solve_m (matmul (mT G) WG) (mT t))"

text \<open>
  Line 224 reads \<^verbatim>\<open>self.\<xi>\<close> (AttributeError before the first objective evaluation);
  line 226 writes the vector through the mask, which needs \<open>\<theta>\<close> (AttributeError on
  \<^verbatim>\<open>None\<close>) and, when the mask is still \<^verbatim>\<open>None\<close>, broadcasts the vector over \<open>\<theta>.T\<close>.
\<close>

definition cal_varcov :: "BLP_module \<Rightarrow> blp \<Rightarrow> vec \<Rightarrow> (error + mat) \<times> blp" where
  "cal_varcov E st \<theta>_vec =
     (case \<xi> st of
        None \<Rightarrow> (Inl (AttributeError ''xi''), st)
      | Some xi \<Rightarrow>
        (case \<theta> st of
           None \<Rightarrow> (Inl (AttributeError ''T''), st)
         | Some th \<Rightarrow>
           (case (case ix_\<theta>_T st of
                    Some ix \<Rightarrow> assign_T th ix \<theta>_vec
                  | None \<Rightarrow> (case bcast (ncols th) (length th) [\<theta>_vec] of
                               None \<Rightarrow> Inl ValueError | Some t \<Rightarrow> Inr (mT t))) of
              Inl e \<Rightarrow> (Inl e, st)
            | Inr th' \<Rightarrow>
              (case cal_jacobian E (st\<lparr>\<theta> := Some th'\<rparr>) th' of
                 Inl e \<Rightarrow> (Inl e, st\<lparr>\<theta> := Some th'\<rparr>)
               | Inr jacob \<Rightarrow>
                   (varcov_of (LinvW st) (Z st) (x1 st) xi jacob, st\<lparr>\<theta> := Some th'\<rparr>)))))"


section \<open>The contraction mapping as a sequence of iterates\<close>

text \<open>
  One pass of the loop body on \<open>\<delta>\<close>: the difference of the logarithms of the observed
  and of the simulated shares is added, product by product.
\<close>

definition step_\<delta> :: "(fl list \<Rightarrow> fl list) \<Rightarrow> fl list \<Rightarrow> fl list \<Rightarrow> fl list" where
  "step_\<delta> sim lns d = map2 fl_add d (log_diff lns (sim d))"

text \<open>The difference computed in iteration \<open>n\<close>, counted from zero.\<close>

definition diff_at :: "(fl list \<Rightarrow> fl list) \<Rightarrow> fl list \<Rightarrow> fl list \<Rightarrow> nat \<Rightarrow> fl list" where
  "diff_at sim lns d n = log_diff lns (sim ((step_\<delta> sim lns ^^ n) d))"

text \<open>The state \<^emph>\<open>iterating\<close>: the iteration neither fails nor meets the criterion.\<close>

definition iterating :: "real \<Rightarrow> fl list \<Rightarrow> bool" where
  "iterating tol diff \<longleftrightarrow> \<not> list_ex isnan diff \<and> diff \<noteq> [] \<and> \<not> converged tol diff"

text \<open>The value of the loop that leaves in iteration \<open>n\<close>.\<close>

definition exit_value ::
  "(fl list \<Rightarrow> fl list) \<Rightarrow> fl list \<Rightarrow> fl list \<Rightarrow> nat \<Rightarrow> nat
     \<Rightarrow> (error + unit) \<times> fl list \<times> fl list \<times> nat" where
  "exit_value sim lns d k n =
     (let dn = (step_\<delta> sim lns ^^ n) d; df = diff_at sim lns d n in
      if list_ex isnan df then (Inl Exception_nan_in_diffs, dn, sim dn, k + n)
      else if df = [] then (Inl ValueError, step_\<delta> sim lns dn, sim dn, k + n)
      else (Inr (), step_\<delta> sim lns dn, sim dn, k + n))"

section \<open>A data set of one market, one product and one simulated consumer\<close>

text \<open>
  The observed share is one half; the product has the nonlinear characteristic \<open>x\<close>,
  the consumer the taste draw 1 and the demographic 0. \<open>one_state x\<close> is the instance
  that \<^verbatim>\<open>BLP.__init__\<close> builds from it.
\<close>

definition one_product :: "real \<Rightarrow> data" where
  "one_product x = \<lparr>data_s_jt = [1 / 2], data_v = [[1]], data_D = [[0]], data_x1 = [[1]],
     data_x2 = [[x]], data_Z = [[1]], data_nmkt = 1, data_nbrand = 1, data_nsimind = 1\<rparr>"

definition one_state :: "real \<Rightarrow> blp" where
  "one_state x = \<lparr>s_jt = [1 / 2], ln_s_jt = [Fin (ln (1 / 2))],
     v = [[1]], D = [[0]], x1 = [[1]], x2 = [[x]], Z = [[1]],
     nmkt = 1, nbrand = 1, nsimind = 1, nx2 = 1, nD = 1,
     LinvW = [[1]], Z_x1 = [[1]], etol = 1 / 10 ^ 6, iter_limit = 200,
     GMM_old = 0, GMM_diff = 1, s_0t = [1 / 2], y = [Fin 0],
     \<delta> = [Fin 0], s = [Fin 0],
     \<theta> = None, ix_\<theta>_T = None, ix_\<theta> = None, \<theta>1 = None, \<xi> = None\<rparr>"

text \<open>
  The instance after the objective has been evaluated at \<open>[[1, 0]]\<close> on \<open>one_state 0\<close>,
  then after a second evaluation at \<open>[[1, 5]]\<close>; and the instance that the evaluation
  at \<open>[[1000, 0]]\<close> on \<open>one_state 1\<close> leaves behind.
\<close>

definition one_state_1st :: blp where
  "one_state_1st = (one_state 0)\<lparr>etol := 1 / 10 ^ 9, GMM_old := 0, GMM_diff := 0,
      \<delta> := [Fin 0], s := [Fin (1 / 2)], \<theta> := Some [[1, 0]], ix_\<theta>_T := Some [(0, 0)],
      \<theta>1 := Some [0], \<xi> := Some [0]\<rparr>"

definition one_state_2nd :: blp where
  "one_state_2nd = one_state_1st\<lparr>etol := 1 / 10 ^ 13, \<theta> := Some [[1, 5]]\<rparr>"

definition one_state_failed :: blp where
  "one_state_failed = (one_state 1)\<lparr>etol := 1 / 10 ^ 9, s := [NaN],
      \<theta> := Some [[1000, 0]], ix_\<theta>_T := Some [(0, 0)]\<rparr>"

text \<open>
  The instance \<open>one_state_1st\<close> after the objective has been evaluated at the vector
  \<open>[0]\<close>: the mask still holds the position \<open>(0, 0)\<close> and the parameter there is zero.
\<close>

definition one_state_zero :: blp where
  "one_state_zero = one_state_1st\<lparr>etol := 1 / 10 ^ 13, \<theta> := Some [[0, 0]]\<rparr>"


section \<open>Sequences of objective evaluations and the mask\<close>

text \<open>
  The instance after the objective has been called on each candidate in turn, whether
  a call returns or raises; \<open>None\<close> when some call does not return.
\<close>

fun GMM_run :: "BLP_module \<Rightarrow> blp \<Rightarrow> cand list \<Rightarrow> blp option" where
  "GMM_run E st [] = Some st"
| "GMM_run E st (c # cs) =
     (case GMM E st c of None \<Rightarrow> None | Some (r, st') \<Rightarrow> GMM_run E st' cs)"

text \<open>Every row has the length of the first.\<close>

definition rectangular :: "'a list list \<Rightarrow> bool" where
  "rectangular M \<longleftrightarrow> (\<forall>r \<in> set M. length r = ncols M)"

text \<open>\<open>th\<close> has the shape of \<open>M\<close> and is zero wherever \<open>M\<close> is.\<close>

definition keeps_zeros :: "mat \<Rightarrow> mat \<Rightarrow> bool" where
  "keeps_zeros M th \<longleftrightarrow>
     length th = length M \<and> (\<forall>b<length M. length (th ! b) = length (M ! b))
     \<and> (\<forall>b<length M. \<forall>a<length (M ! b). M ! b ! a = 0 \<longrightarrow> th ! b ! a = 0)"

text \<open>The mask is the nonzero pattern of \<open>M\<close> and \<open>\<theta>\<close> is zero outside it.\<close>

definition mask_inv :: "mat \<Rightarrow> blp \<Rightarrow> bool" where
  "mask_inv M st \<longleftrightarrow>
     ix_\<theta>_T st = Some (nonzero_T M) \<and> (\<exists>th. \<theta> st = Some th \<and> keeps_zeros M th)"

text \<open>The instance \<open>one_state_1st\<close> after the objective has been evaluated at the vector \<open>[2]\<close>.\<close>

definition one_state_vec :: blp where
  "one_state_vec = one_state_1st\<lparr>etol := 1 / 10 ^ 13, \<theta> := Some [[2, 0]]\<rparr>"


section \<open>Matrices in the mathematical sense\<close>

text \<open>An \<open>m \<times> n\<close> array.\<close>

definition is_mat :: "nat \<Rightarrow> nat \<Rightarrow> 'a list list \<Rightarrow> bool" where
  "is_mat m n A \<longleftrightarrow> length A = m \<and> (\<forall>r \<in> set A. length r = n)"

text \<open>The identity matrix, and a two-sided inverse of an \<open>n \<times> n\<close> matrix.\<close>

definition idm :: "nat \<Rightarrow> mat" where
  "idm n = map (\<lambda>i. map (\<lambda>j. if i = j then 1 else 0) [0..<n]) [0..<n]"

definition inverse_of :: "nat \<Rightarrow> mat \<Rightarrow> mat \<Rightarrow> bool" where
  "inverse_of n A B \<longleftrightarrow>
     is_mat n n A \<and> is_mat n n B \<and> matmul A B = idm n \<and> matmul B A = idm n"


text \<open>
  A vector solves a linear system given by its rows and right-hand sides; and the
  system has exactly one solution among the vectors of length \<open>n\<close>.
\<close>

definition solves :: "(vec \<times> real) list \<Rightarrow> vec \<Rightarrow> bool" where
  "solves sys x \<longleftrightarrow> (\<forall>(r, b) \<in> set sys. dot r x = b)"

definition unique_solution :: "nat \<Rightarrow> (vec \<times> real) list \<Rightarrow> bool" where
  "unique_solution n sys \<longleftrightarrow>
     (\<exists>x. length x = n \<and> solves sys x \<and> (\<forall>w. length w = n \<and> solves sys w \<longrightarrow> w = x))"


text \<open>
  A square lower triangular matrix of size \<open>n\<close> with a nonzero diagonal: the first row
  is its diagonal entry followed by zeros, and the rows below it, without their first
  entries, form such a matrix of size \<open>n - 1\<close>.
\<close>

primrec lower_tri :: "nat \<Rightarrow> mat \<Rightarrow> bool" where
  "lower_tri 0 L = (L = [])"
| "lower_tri (Suc n) L =
     (case L of [] \<Rightarrow> False
      | r # Ls \<Rightarrow> (case r of [] \<Rightarrow> False
          | l # z \<Rightarrow> l \<noteq> 0 \<and> (\<forall>x \<in> set z. x = 0) \<and> length z = n
                    \<and> (\<forall>r' \<in> set Ls. r' \<noteq> []) \<and> lower_tri n (map tl Ls)))"


text \<open>The factor of the pair \<^verbatim>\<open>(L, True)\<close> that \<^verbatim>\<open>cholesky\<close> returns for \<open>W\<close>.\<close>

definition factor_of :: "nat \<Rightarrow> mat \<Rightarrow> mat \<Rightarrow> bool" where
  "factor_of n W L \<longleftrightarrow> lower_tri n L \<and> matmul L (mT L) = W"


text \<open>
  The rows found by the factorisation, each of them ending at its diagonal entry:
  the diagonal is positive and the products of the rows are the entries of the lower
  triangle of \<open>A\<close>.
\<close>

definition chol_inv :: "mat \<Rightarrow> mat \<Rightarrow> bool" where
  "chol_inv A Ls \<longleftrightarrow>
     (\<forall>i < length Ls. length (Ls ! i) = Suc i \<and> 0 < Ls ! i ! i
        \<and> (\<forall>j \<le> i. dot (Ls ! i) (Ls ! j) = A ! i ! j))"


section \<open>The objective as the specification states it\<close>

text \<open>
  With \<open>W\<^sup>-\<^sup>1\<close> an inverse of \<open>W = Z\<^sup>T Z\<close> and \<open>A\<^sup>-\<^sup>1\<close> an inverse of
  \<open>A = x1\<^sup>T Z W\<^sup>-\<^sup>1 Z\<^sup>T x1\<close>: the generalized least squares estimate
  \<open>\<theta>1 = A\<^sup>-\<^sup>1 x1\<^sup>T Z W\<^sup>-\<^sup>1 Z\<^sup>T \<delta>\<close>, the residual \<open>\<xi> = \<delta> - x1 \<theta>1\<close> and the quadratic form
  \<open>\<xi>\<^sup>T Z W\<^sup>-\<^sup>1 Z\<^sup>T \<xi>\<close>.
\<close>

definition spec_A :: "mat \<Rightarrow> mat \<Rightarrow> mat \<Rightarrow> mat" where
  "spec_A Zm X Winv = matmul (mT X) (matmul Zm (matmul Winv (matmul (mT Zm) X)))"

definition spec_theta1 :: "mat \<Rightarrow> mat \<Rightarrow> mat \<Rightarrow> mat \<Rightarrow> vec \<Rightarrow> vec" where
  "spec_theta1 Zm X Winv Ainv d =
     matvec Ainv (matvec (mT X) (matvec Zm (matvec Winv (matvec (mT Zm) d))))"

definition spec_xi :: "mat \<Rightarrow> mat \<Rightarrow> mat \<Rightarrow> mat \<Rightarrow> vec \<Rightarrow> vec" where
  "spec_xi Zm X Winv Ainv d = vsub d (matvec X (spec_theta1 Zm X Winv Ainv d))"

definition spec_objective :: "mat \<Rightarrow> mat \<Rightarrow> mat \<Rightarrow> mat \<Rightarrow> vec \<Rightarrow> real" where
  "spec_objective Zm X Winv Ainv d =
     dot (spec_xi Zm X Winv Ainv d)
       (matvec Zm (matvec Winv (matvec (mT Zm) (spec_xi Zm X Winv Ainv d))))"

text \<open>
  The instance holds \<open>N\<close> observations, \<open>q\<close> instruments and \<open>p\<close> linear regressors, the
  product \<open>Z\<^sup>T x1\<close>, and a lower triangular factor of \<open>Z\<^sup>T Z\<close>, as \<^verbatim>\<open>BLP.__init__\<close>
  stores them.
\<close>

definition wf_linear :: "nat \<Rightarrow> nat \<Rightarrow> nat \<Rightarrow> blp \<Rightarrow> bool" where
  "wf_linear N q p st \<longleftrightarrow>
     0 < N \<and> 0 < q \<and> is_mat N q (Z st) \<and> is_mat N p (x1 st)
     \<and> Z_x1 st = matmul (mT (Z st)) (x1 st)
     \<and> factor_of q (matmul (mT (Z st)) (Z st)) (LinvW st)"


section \<open>A data set of two markets with one product each\<close>

text \<open>
  The observed shares are 1/2 and 1/3, the instruments are the two unit vectors, the
  only regressor is the constant, and the nonlinear characteristic is zero. The stored
  \<open>\<delta>\<close> is the fixed point of the contraction mapping. \<open>two_markets_set\<close> is the instance
  once the objective has stored the candidate \<open>[[1, 0]]\<close>, \<open>two_markets_solved\<close> the
  instance once the contraction mapping has returned.
\<close>

definition two_markets :: blp where
  "two_markets = \<lparr>s_jt = [1 / 2, 1 / 3], ln_s_jt = [Fin (ln (1 / 2)), Fin (ln (1 / 3))],
     v = [[1], [1]], D = [[0], [0]], x1 = [[1], [1]], x2 = [[0], [0]], Z = [[1, 0], [0, 1]],
     nmkt = 2, nbrand = 1, nsimind = 1, nx2 = 1, nD = 1,
     LinvW = [[1, 0], [0, 1]], Z_x1 = [[1], [1]], etol = 1 / 10 ^ 6, iter_limit = 200,
     GMM_old = 0, GMM_diff = 1, s_0t = [1 / 2, 2 / 3], y = [Fin 0, Fin (ln (1 / 2))],
     \<delta> = [Fin 0, Fin (ln (1 / 2))], s = [Fin 0, Fin 0],
     \<theta> = None, ix_\<theta>_T = None, ix_\<theta> = None, \<theta>1 = None, \<xi> = None\<rparr>"

definition two_markets_set :: blp where
  "two_markets_set = two_markets\<lparr>\<theta> := Some [[1, 0]], ix_\<theta>_T := Some [(0, 0)]\<rparr>"

definition two_markets_solved :: blp where
  "two_markets_solved = two_markets_set\<lparr>etol := 1 / 10 ^ 9, s := [Fin (1 / 2), Fin (1 / 3)]\<rparr>"


section \<open>The variance-covariance matrix as the specification states it\<close>

text \<open>
  The gradient of the moment conditions \<open>G = Z\<^sup>T [x1, J]\<close>, the covariance of the moment
  conditions \<open>\<Omega> = (Z scaled row-wise by \<xi>)\<^sup>T (Z scaled row-wise by \<xi>)\<close>, the matrix
  \<open>G\<^sup>T W G\<close> and the sandwich \<open>(G\<^sup>T W G)\<^sup>-\<^sup>1 G\<^sup>T W \<Omega> W G (G\<^sup>T W G)\<^sup>-\<^sup>1\<close>, given the inverses as
  matrices.
\<close>

definition spec_G :: "mat \<Rightarrow> mat \<Rightarrow> mat \<Rightarrow> mat" where
  "spec_G Zm X J = matmul (mT Zm) (hstack X J)"

definition spec_Omega :: "mat \<Rightarrow> vec \<Rightarrow> mat" where
  "spec_Omega Zm xi = matmul (mT (scale_rows Zm xi)) (scale_rows Zm xi)"

definition spec_B :: "mat \<Rightarrow> mat \<Rightarrow> mat" where
  "spec_B G Winv = matmul (mT G) (matmul Winv G)"

definition spec_varcov :: "mat \<Rightarrow> mat \<Rightarrow> mat \<Rightarrow> mat \<Rightarrow> mat" where
  "spec_varcov G Om Winv Binv =
     matmul Binv (matmul (matmul (mT G) (matmul Winv (matmul Om (matmul Winv G)))) Binv)"

text \<open>
  The matrix \<open>C = (Z scaled row-wise by \<xi>) W G (G\<^sup>T W G)\<^sup>-\<^sup>1\<close>, of which the sandwich is the
  Gram matrix \<open>C\<^sup>T C\<close>.
\<close>

definition spec_root :: "mat \<Rightarrow> vec \<Rightarrow> mat \<Rightarrow> mat \<Rightarrow> mat \<Rightarrow> mat" where
  "spec_root Zm xi G Winv Binv = matmul (matmul (scale_rows Zm xi) (matmul Winv G)) Binv"


section \<open>A data set of two markets whose products differ\<close>

text \<open>
  The two-market data set with observed shares 1/2 and 1/2 and the nonlinear
  characteristic 1 in the first market and 2 in the second. The parameter matrix is
  \<open>[[1, 0]]\<close> with the mask \<open>(0, 0)\<close>; \<open>\<delta> = [-1, -2]\<close> solves the share equations at this
  parameter, \<open>\<theta>1\<close> is the mean of \<open>\<delta>\<close> and \<open>\<xi>\<close> the residual: an evaluation of the
  objective at the vector \<open>[1]\<close> leaves all of them as they are.
\<close>

definition two_markets_estimated :: blp where
  "two_markets_estimated = two_markets\<lparr>s_jt := [1 / 2, 1 / 2],
     ln_s_jt := [Fin (ln (1 / 2)), Fin (ln (1 / 2))], x2 := [[1], [2]],
     s_0t := [1 / 2, 1 / 2], y := [Fin 0, Fin 0], \<delta> := [Fin (- 1), Fin (- 2)],
     s := [Fin (1 / 2), Fin (1 / 2)], \<theta> := Some [[1, 0]], ix_\<theta>_T := Some [(0, 0)],
     \<theta>1 := Some [- 3 / 2], \<xi> := Some [1 / 2, - 1 / 2]\<rparr>"


section \<open>The contraction mapping as the specification states it\<close>

text \<open>
  The per-product difference of the logarithm of the observed share and the logarithm
  of the simulated share.
\<close>

definition spec_log_share_diff :: "vec \<Rightarrow> vec \<Rightarrow> vec" where
  "spec_log_share_diff obs sim = map2 (\<lambda>a b. ln a - ln b) obs sim"

text \<open>
  The dual criterion: the maximum absolute difference is below the tolerance and the
  mean absolute difference is below \<open>1e-3\<close>.
\<close>

definition spec_converged :: "real \<Rightarrow> vec \<Rightarrow> bool" where
  "spec_converged tol df \<longleftrightarrow>
     Max (set (map abs df)) < tol \<and> sum_list (map abs df) / real (length df) < 1 / 1000"

text \<open>
  \<open>\<delta>\<close> after \<open>n\<close> additions of the difference, \<open>S\<close> giving the simulated shares of a
  \<open>\<delta>\<close>.
\<close>

fun spec_iterate :: "(vec \<Rightarrow> vec) \<Rightarrow> vec \<Rightarrow> vec \<Rightarrow> nat \<Rightarrow> vec" where
  "spec_iterate S obs d 0 = d"
| "spec_iterate S obs d (Suc n) =
     map2 (+) (spec_iterate S obs d n) (spec_log_share_diff obs (S (spec_iterate S obs d n)))"

text \<open>
  The share of the product of the one-product data set with characteristic 1, for the
  parameter \<open>t\<close>: the single consumer chooses it with probability
  \<open>exp (\<delta> + t) / (1 + exp (\<delta> + t))\<close>.
\<close>

definition one_share :: "real \<Rightarrow> vec \<Rightarrow> vec" where
  "one_share t d = map (\<lambda>x. exp (x + t) / (1 + exp (x + t))) d"
section \<open>Matrix algebra\<close>

lemma is_matD: "is_mat m n A \<Longrightarrow> length A = m" "is_mat m n A \<Longrightarrow> i < m \<Longrightarrow> length (A ! i) = n"
  by (auto simp add: is_mat_def)

lemma ncols_is_mat: "is_mat m n A \<Longrightarrow> 0 < m \<Longrightarrow> ncols A = n"
  by (cases A) (auto simp add: is_mat_def ncols_def)

lemma dot_sum:
  "length a = n \<Longrightarrow> length b = n \<Longrightarrow> dot a b = (\<Sum>k<n. a ! k * b ! k)"
proof (induction a b arbitrary: n rule: dot.induct)
  case (1 a u b w)
  then obtain n' where n: "n = Suc n'" by (cases n) auto
  with 1 have "dot u w = (\<Sum>k<n'. u ! k * w ! k)" by simp
  then show ?case
    unfolding n by (simp add: sum.lessThan_Suc_shift del: sum.lessThan_Suc)
qed auto

lemma mat_eqI:
  assumes "is_mat m n A" "is_mat m n B" "\<And>i j. i < m \<Longrightarrow> j < n \<Longrightarrow> A ! i ! j = B ! i ! j"
  shows "A = B"
proof (rule nth_equalityI)
  show "length A = length B" using assms by (simp add: is_mat_def)
next
  fix i assume "i < length A"
  then have i: "i < m" using assms(1) by (simp add: is_mat_def)
  show "A ! i = B ! i"
    using assms i by (intro nth_equalityI) (auto simp add: is_matD)
qed

lemma is_mat_mT: "is_mat m n A \<Longrightarrow> 0 < m \<Longrightarrow> is_mat n m (mT A)"
  by (auto simp add: mT_def is_mat_def ncols_is_mat[unfolded is_mat_def])

lemma mT_nth: "is_mat m n A \<Longrightarrow> 0 < m \<Longrightarrow> j < n \<Longrightarrow> i < m \<Longrightarrow> mT A ! j ! i = A ! i ! j"
  by (simp add: mT_def ncols_is_mat is_matD)

lemma mT_mT: 
  assumes "is_mat m n A" "0 < m" "0 < n"
  shows "mT (mT A) = A"
proof (rule mat_eqI[of m n])
  show "is_mat m n (mT (mT A))" by (rule is_mat_mT[OF is_mat_mT[OF assms(1,2)] assms(3)])
  show "is_mat m n A" by fact
  fix i j assume "i < m" "j < n"
  then show "mT (mT A) ! i ! j = A ! i ! j"
    using assms by (simp add: mT_nth[OF is_mat_mT] mT_nth)
qed

lemma matvec_length: "length (matvec A x) = length A"
  by (simp add: matvec_def)

lemma matvec_nth:
  "is_mat m n A \<Longrightarrow> length x = n \<Longrightarrow> i < m \<Longrightarrow> matvec A x ! i = (\<Sum>k<n. A ! i ! k * x ! k)"
  by (simp add: matvec_def is_matD dot_sum)

lemma is_mat_matmul:
  assumes "is_mat m k A" "is_mat k n B" "0 < k"
  shows "is_mat m n (matmul A B)"
  using assms is_mat_mT[OF assms(2,3)]
  by (auto simp add: matmul_def is_mat_def)

lemma matmul_nth:
  assumes "is_mat m k A" "is_mat k n B" "0 < k" "i < m" "j < n"
  shows "matmul A B ! i ! j = (\<Sum>l<k. A ! i ! l * B ! l ! j)"
proof -
  have T: "is_mat n k (mT B)" by (rule is_mat_mT[OF assms(2,3)])
  have "matmul A B ! i ! j = dot (A ! i) (mT B ! j)"
    using assms T by (simp add: matmul_def is_matD)
  also have "\<dots> = (\<Sum>l<k. A ! i ! l * mT B ! j ! l)"
    using assms T by (intro dot_sum) (auto simp add: is_matD)
  also have "\<dots> = (\<Sum>l<k. A ! i ! l * B ! l ! j)"
    using assms by (intro sum.cong) (auto simp add: mT_nth)
  finally show ?thesis .
qed

lemma matmul_assoc:
  assumes "is_mat m k A" "is_mat k l B" "is_mat l n C" "0 < k" "0 < l"
  shows "matmul (matmul A B) C = matmul A (matmul B C)"
proof (rule mat_eqI[of m n])
  have AB: "is_mat m l (matmul A B)" by (rule is_mat_matmul[OF assms(1,2,4)])
  have BC: "is_mat k n (matmul B C)" by (rule is_mat_matmul[OF assms(2,3,5)])
  show "is_mat m n (matmul (matmul A B) C)" by (rule is_mat_matmul[OF AB assms(3,5)])
  show "is_mat m n (matmul A (matmul B C))" by (rule is_mat_matmul[OF assms(1) BC assms(4)])
  fix i j assume ij: "i < m" "j < n"
  have "matmul (matmul A B) C ! i ! j = (\<Sum>b<l. (\<Sum>a<k. A ! i ! a * B ! a ! b) * C ! b ! j)"
    using assms AB ij by (simp add: matmul_nth[of m l _ n] matmul_nth[of m k _ l])
  also have "\<dots> = (\<Sum>b<l. \<Sum>a<k. A ! i ! a * (B ! a ! b * C ! b ! j))"
    by (simp add: sum_distrib_right mult.assoc)
  also have "\<dots> = (\<Sum>a<k. \<Sum>b<l. A ! i ! a * (B ! a ! b * C ! b ! j))"
    by (rule sum.swap)
  also have "\<dots> = (\<Sum>a<k. A ! i ! a * (\<Sum>b<l. B ! a ! b * C ! b ! j))"
    by (simp add: sum_distrib_left)
  also have "\<dots> = matmul A (matmul B C) ! i ! j"
    using assms BC ij by (simp add: matmul_nth[of m k _ n] matmul_nth[of k l _ n])
  finally show "matmul (matmul A B) C ! i ! j = matmul A (matmul B C) ! i ! j" .
qed

lemma matvec_matmul:
  assumes "is_mat m k A" "is_mat k n B" "length x = n" "0 < k"
  shows "matvec (matmul A B) x = matvec A (matvec B x)"
proof (rule nth_equalityI)
  show "length (matvec (matmul A B) x) = length (matvec A (matvec B x))"
    by (simp add: matvec_length matmul_def)
next
  fix i assume "i < length (matvec (matmul A B) x)"
  then have i: "i < m" using assms by (simp add: matvec_length matmul_def is_mat_def)
  have AB: "is_mat m n (matmul A B)" by (rule is_mat_matmul[OF assms(1,2,4)])
  have Bx: "length (matvec B x) = k" using assms by (simp add: matvec_length is_mat_def)
  have "matvec (matmul A B) x ! i = (\<Sum>b<n. (\<Sum>a<k. A ! i ! a * B ! a ! b) * x ! b)"
    using assms AB i by (simp add: matvec_nth[of m n] matmul_nth[of m k _ n])
  also have "\<dots> = (\<Sum>b<n. \<Sum>a<k. A ! i ! a * (B ! a ! b * x ! b))"
    by (simp add: sum_distrib_right mult.assoc)
  also have "\<dots> = (\<Sum>a<k. \<Sum>b<n. A ! i ! a * (B ! a ! b * x ! b))"
    by (rule sum.swap)
  also have "\<dots> = (\<Sum>a<k. A ! i ! a * (\<Sum>b<n. B ! a ! b * x ! b))"
    by (simp add: sum_distrib_left)
  also have "\<dots> = matvec A (matvec B x) ! i"
    using assms Bx i by (simp add: matvec_nth[of m k] matvec_nth[of k n])
  finally show "matvec (matmul A B) x ! i = matvec A (matvec B x) ! i" .
qed

lemma mT_matmul:
  assumes "is_mat m k A" "is_mat k n B" "0 < m" "0 < k"
  shows "mT (matmul A B) = matmul (mT B) (mT A)"
proof (rule mat_eqI[of n m])
  have AB: "is_mat m n (matmul A B)" by (rule is_mat_matmul[OF assms(1,2,4)])
  have TB: "is_mat n k (mT B)" by (rule is_mat_mT[OF assms(2,4)])
  have TA: "is_mat k m (mT A)" by (rule is_mat_mT[OF assms(1,3)])
  show "is_mat n m (mT (matmul A B))" by (rule is_mat_mT[OF AB assms(3)])
  show "is_mat n m (matmul (mT B) (mT A))" by (rule is_mat_matmul[OF TB TA assms(4)])
  fix i j assume ij: "i < n" "j < m"
  have "mT (matmul A B) ! i ! j = (\<Sum>l<k. A ! j ! l * B ! l ! i)"
    using assms AB ij by (simp add: mT_nth[of m n] matmul_nth[of m k _ n])
  also have "\<dots> = (\<Sum>l<k. mT B ! i ! l * mT A ! l ! j)"
    using assms ij by (intro sum.cong) (auto simp add: mT_nth[of k n] mT_nth[of m k])
  also have "\<dots> = matmul (mT B) (mT A) ! i ! j"
    using TA TB assms ij by (simp add: matmul_nth[of n k _ m])
  finally show "mT (matmul A B) ! i ! j = matmul (mT B) (mT A) ! i ! j" .
qed

lemma is_mat_idm: "is_mat n n (idm n)"
  by (simp add: idm_def is_mat_def)

lemma idm_nth: "i < n \<Longrightarrow> j < n \<Longrightarrow> idm n ! i ! j = (if i = j then 1 else 0)"
  by (simp add: idm_def)

lemma matvec_idm:
  assumes "length x = n"
  shows "matvec (idm n) x = x"
proof (rule nth_equalityI)
  show "length (matvec (idm n) x) = length x"
    using assms by (simp add: matvec_length idm_def)
next
  fix i assume "i < length (matvec (idm n) x)"
  then have i: "i < n" by (simp add: matvec_length idm_def)
  have "matvec (idm n) x ! i = (\<Sum>k<n. (if i = k then 1 else 0) * x ! k)"
    using assms i by (simp add: matvec_nth[OF is_mat_idm] idm_nth)
  also have "\<dots> = (\<Sum>k<n. if k = i then x ! k else 0)"
    by (intro sum.cong) auto
  also have "\<dots> = x ! i"
    using i by (simp add: sum.delta)
  finally show "matvec (idm n) x ! i = x ! i" .
qed

lemma dot_commute: "dot a b = dot b a"
  by (induction a b rule: dot.induct) auto

lemma dot_matvec_mT:
  assumes "is_mat m n A" "length x = m" "length w = n" "0 < m"
  shows "dot x (matvec A w) = dot (matvec (mT A) x) w"
proof -
  have TA: "is_mat n m (mT A)" by (rule is_mat_mT[OF assms(1,4)])
  have "dot x (matvec A w) = (\<Sum>i<m. x ! i * (\<Sum>k<n. A ! i ! k * w ! k))"
    using assms by (simp add: dot_sum[of _ m] matvec_length is_matD matvec_nth[of m n])
  also have "\<dots> = (\<Sum>i<m. \<Sum>k<n. (A ! i ! k * x ! i) * w ! k)"
    by (simp add: sum_distrib_left mult_ac)
  also have "\<dots> = (\<Sum>k<n. \<Sum>i<m. (A ! i ! k * x ! i) * w ! k)"
    by (rule sum.swap)
  also have "\<dots> = (\<Sum>k<n. (\<Sum>i<m. mT A ! k ! i * x ! i) * w ! k)"
    using assms by (simp add: sum_distrib_right mT_nth[of m n])
  also have "\<dots> = dot (matvec (mT A) x) w"
    using assms TA by (simp add: dot_sum[of _ n] matvec_length is_matD matvec_nth[of n m])
  finally show ?thesis .
qed

section \<open>Elimination with partial pivoting is correct\<close>

lemma argmax_abs_props:
  assumes "best < length pre" "m = \<bar>pre ! best\<bar>" "\<forall>x \<in> set pre. \<bar>x\<bar> \<le> m"
  shows "argmax_abs cs (length pre) best m < length (pre @ cs)
         \<and> (\<forall>x \<in> set (pre @ cs). \<bar>x\<bar> \<le> \<bar>(pre @ cs) ! argmax_abs cs (length pre) best m\<bar>)"
  using assms
proof (induction cs arbitrary: pre best m)
  case Nil
  then show ?case by simp
next
  case (Cons c cs)
  show ?case
  proof (cases "m < \<bar>c\<bar>")
    case True
    have "argmax_abs cs (length (pre @ [c])) (length pre) \<bar>c\<bar> < length ((pre @ [c]) @ cs)
         \<and> (\<forall>x \<in> set ((pre @ [c]) @ cs).
               \<bar>x\<bar> \<le> \<bar>((pre @ [c]) @ cs) ! argmax_abs cs (length (pre @ [c])) (length pre) \<bar>c\<bar>\<bar>)"
      using Cons.prems True by (intro Cons.IH) (auto simp add: nth_append)
    with True show ?thesis by simp
  next
    case False
    have "argmax_abs cs (length (pre @ [c])) best m < length ((pre @ [c]) @ cs)
         \<and> (\<forall>x \<in> set ((pre @ [c]) @ cs).
               \<bar>x\<bar> \<le> \<bar>((pre @ [c]) @ cs) ! argmax_abs cs (length (pre @ [c])) best m\<bar>)"
      using Cons.prems False by (intro Cons.IH) (auto simp add: nth_append)
    with False show ?thesis by simp
  qed
qed

lemma pivot_index_props:
  assumes "rows \<noteq> []"
  shows "pivot_index rows < length rows
         \<and> (\<forall>r \<in> set rows. \<bar>fst r\<bar> \<le> \<bar>fst (rows ! pivot_index rows)\<bar>)"
proof -
  from assms obtain c a b rest where rows: "rows = (c, a, b) # rest"
    by (cases rows) auto
  define p where "p = argmax_abs (map fst rest) (length [c]) 0 \<bar>c\<bar>"
  have "p < length ([c] @ map fst rest)
         \<and> (\<forall>x \<in> set ([c] @ map fst rest). \<bar>x\<bar> \<le> \<bar>([c] @ map fst rest) ! p\<bar>)"
    unfolding p_def by (rule argmax_abs_props) auto
  then have lt: "p < length (map fst rows)"
    and mx: "\<forall>x \<in> set (map fst rows). \<bar>x\<bar> \<le> \<bar>map fst rows ! p\<bar>"
    by (simp_all add: rows)
  have pi: "pivot_index rows = p"
    by (simp add: pivot_index_def rows p_def)
  from lt have lt': "p < length rows" by simp
  have "\<forall>r \<in> set rows. \<bar>fst r\<bar> \<le> \<bar>fst (rows ! p)\<bar>"
  proof
    fix r assume "r \<in> set rows"
    then have "fst r \<in> set (map fst rows)" by simp
    with mx have "\<bar>fst r\<bar> \<le> \<bar>map fst rows ! p\<bar>" by blast
    then show "\<bar>fst r\<bar> \<le> \<bar>fst (rows ! p)\<bar>" using lt' by simp
  qed
  with lt' pi show ?thesis by simp
qed

lemma swap_out_set:
  assumes "p < length rows"
  shows "set rows \<subseteq> insert (rows ! p) (set (swap_out p rows))"
    and "set (swap_out p rows) \<subseteq> set rows"
proof -
  from assms obtain r rest where rows: "rows = r # rest" by (cases rows) auto
  show "set rows \<subseteq> insert (rows ! p) (set (swap_out p rows))"
  proof (cases p)
    case 0
    then show ?thesis by (auto simp add: swap_out_def rows)
  next
    case (Suc q)
    with assms rows have q: "q < length rest" by simp
    have "set rest \<subseteq> insert (rest ! q) (set (rest[q := r]))"
    proof
      fix x assume "x \<in> set rest"
      then obtain i where i: "i < length rest" "x = rest ! i" by (auto simp add: in_set_conv_nth)
      show "x \<in> insert (rest ! q) (set (rest[q := r]))"
      proof (cases "i = q")
        case True
        with i show ?thesis by simp
      next
        case False
        with i have "rest[q := r] ! i = x" by simp
        with i(1) have "x \<in> set (rest[q := r])"
          by (metis length_list_update nth_mem)
        then show ?thesis by simp
      qed
    qed
    moreover have "r \<in> set (rest[q := r])"
      using q by (simp add: set_update_memI)
    ultimately show ?thesis
      using Suc by (auto simp add: swap_out_def rows)
  qed
  show "set (swap_out p rows) \<subseteq> set rows"
    using set_update_subset_insert[of rest "p - 1" r]
    by (auto simp add: swap_out_def rows)
qed

lemma dot_vsub_smul:
  "length a = length pa \<Longrightarrow> dot (vsub a (smul f pa)) x = dot a x - f * dot pa x"
proof (induction a pa arbitrary: x rule: list_induct2)
  case Nil
  then show ?case by (simp add: vsub_def smul_def)
next
  case (Cons a u p pu)
  show ?case
  proof (cases x)
    case Nil
    then show ?thesis by (simp add: vsub_def smul_def)
  next
    case (Cons b w)
    have "dot (vsub u (smul f pu)) w = dot u w - f * dot pu w" by (rule Cons.IH)
    then show ?thesis
      by (simp add: Cons vsub_def smul_def algebra_simps)
  qed
qed

lemma split_row_Cons: "split_row (c # a, b) = (c, a, b)"
  by (simp add: split_row_def)

lemma rows_of_sys:
  assumes "\<forall>(r, b) \<in> set sys. length r = Suc n"
  shows "\<forall>(c, a, b) \<in> set (map split_row sys). length a = n"
    and "solves sys x \<longleftrightarrow> (\<forall>(c, a, b) \<in> set (map split_row sys). dot (c # a) x = b)"
proof -
  have shape: "\<And>r b. (r, b) \<in> set sys \<Longrightarrow> \<exists>c a. r = c # a \<and> length a = n"
  proof -
    fix r b assume "(r, b) \<in> set sys"
    with assms have "length r = Suc n" by auto
    then show "\<exists>c a. r = c # a \<and> length a = n" by (cases r) auto
  qed
  show "\<forall>(c, a, b) \<in> set (map split_row sys). length a = n"
  proof (clarsimp)
    fix c a b r b' assume "(r, b') \<in> set sys" "split_row (r, b') = (c, a, b)"
    with shape[of r b'] show "length a = n" by (auto simp add: split_row_Cons)
  qed
  show "solves sys x \<longleftrightarrow> (\<forall>(c, a, b) \<in> set (map split_row sys). dot (c # a) x = b)"
  proof
    assume s: "solves sys x"
    show "\<forall>(c, a, b) \<in> set (map split_row sys). dot (c # a) x = b"
    proof (clarsimp)
      fix c a b r b' assume in_sys: "(r, b') \<in> set sys" and sp: "split_row (r, b') = (c, a, b)"
      from shape[OF in_sys] sp have "r = c # a" "b' = b" by (auto simp add: split_row_Cons)
      with s in_sys show "dot (c # a) x = b" by (auto simp add: solves_def)
    qed
  next
    assume r: "\<forall>(c, a, b) \<in> set (map split_row sys). dot (c # a) x = b"
    show "solves sys x"
      unfolding solves_def
    proof (clarsimp)
      fix r' b assume in_sys: "(r', b) \<in> set sys"
      from shape[OF in_sys] obtain c a where ca: "r' = c # a" by blast
      then have "split_row (r', b) = (c, a, b)" by (simp add: split_row_Cons)
      with in_sys have "(c, a, b) \<in> set (map split_row sys)" by force
      with r ca show "dot r' x = b" by auto
    qed
  qed
qed

lemma reduce_step:
  assumes len: "\<forall>(c, a, b) \<in> set rows. length a = n"
    and p: "p < length rows" and piv: "rows ! p = (pc, pa, pb)" and pc: "pc \<noteq> 0"
  shows "solves (map (reduce_row (pc, pa, pb)) (swap_out p rows)) w
         \<longleftrightarrow> (\<forall>(c, a, b) \<in> set rows. dot (c # a) ((pb - dot pa w) / pc # w) = b)"
proof -
  have pin: "(pc, pa, pb) \<in> set rows" using p piv by (metis nth_mem)
  then have lpa: "length pa = n" using len by auto
  have red: "\<And>c a b. (c, a, b) \<in> set rows \<Longrightarrow>
      (dot (vsub a (smul (c / pc) pa)) w = b - (c / pc) * pb)
       \<longleftrightarrow> (dot (c # a) ((pb - dot pa w) / pc # w) = b)"
  proof -
    fix c a b assume "(c, a, b) \<in> set rows"
    then have "length a = length pa" using len lpa by auto
    then have "dot (vsub a (smul (c / pc) pa)) w = dot a w - (c / pc) * dot pa w"
      by (rule dot_vsub_smul)
    then show "(dot (vsub a (smul (c / pc) pa)) w = b - (c / pc) * pb)
       \<longleftrightarrow> (dot (c # a) ((pb - dot pa w) / pc # w) = b)"
      using pc by (auto simp add: field_simps)
  qed
  show ?thesis
  proof
    assume s: "solves (map (reduce_row (pc, pa, pb)) (swap_out p rows)) w"
    show "\<forall>(c, a, b) \<in> set rows. dot (c # a) ((pb - dot pa w) / pc # w) = b"
    proof (clarify)
      fix c a b assume in_rows: "(c, a, b) \<in> set rows"
      show "dot (c # a) ((pb - dot pa w) / pc # w) = b"
      proof (cases "(c, a, b) = (pc, pa, pb)")
        case True
        then show ?thesis using pc by simp
      next
        case False
        with in_rows swap_out_set(1)[OF p] piv have "(c, a, b) \<in> set (swap_out p rows)"
          by auto
        then have "reduce_row (pc, pa, pb) (c, a, b)
                     \<in> set (map (reduce_row (pc, pa, pb)) (swap_out p rows))"
          by simp
        with s have "dot (vsub a (smul (c / pc) pa)) w = b - (c / pc) * pb"
          by (auto simp add: solves_def reduce_row_def)
        with red[OF in_rows] show ?thesis by simp
      qed
    qed
  next
    assume r: "\<forall>(c, a, b) \<in> set rows. dot (c # a) ((pb - dot pa w) / pc # w) = b"
    show "solves (map (reduce_row (pc, pa, pb)) (swap_out p rows)) w"
      unfolding solves_def
    proof (clarsimp)
      fix r' b' c a b assume in_o: "(c, a, b) \<in> set (swap_out p rows)"
        and rr: "reduce_row (pc, pa, pb) (c, a, b) = (r', b')"
      from in_o swap_out_set(2)[OF p] have in_rows: "(c, a, b) \<in> set rows" by auto
      with r have "dot (c # a) ((pb - dot pa w) / pc # w) = b" by auto
      with red[OF in_rows] have "dot (vsub a (smul (c / pc) pa)) w = b - (c / pc) * pb" by simp
      with rr show "dot r' w = b'" by (auto simp add: reduce_row_def)
    qed
  qed
qed

lemma reduced_lengths:
  assumes len: "\<forall>(c, a, b) \<in> set rows. length a = n"
    and p: "p < length rows" and piv: "rows ! p = (pc, pa, pb)"
  shows "\<forall>(r, b) \<in> set (map (reduce_row (pc, pa, pb)) (swap_out p rows)). length r = n"
proof (clarsimp)
  fix r b c a b' assume in_o: "(c, a, b') \<in> set (swap_out p rows)"
    and rr: "reduce_row (pc, pa, pb) (c, a, b') = (r, b)"
  have "(pc, pa, pb) \<in> set rows" using p piv by (metis nth_mem)
  then have "length pa = n" using len by auto
  moreover from in_o swap_out_set(2)[OF p] len have "length a = n" by auto
  ultimately show "length r = n"
    using rr by (auto simp add: reduce_row_def vsub_def smul_def)
qed

lemma length_swap_out: "p < length rows \<Longrightarrow> length (swap_out p rows) = length rows - 1"
  by (simp add: swap_out_def)

lemma elim_sound:
  "elim n sys = Some xs \<Longrightarrow> \<forall>(r, b) \<in> set sys. length r = n \<Longrightarrow> length sys = n
     \<Longrightarrow> length xs = n \<and> solves sys xs"
proof (induction n arbitrary: sys xs)
  case 0
  then show ?case by (auto simp add: solves_def)
next
  case (Suc n)
  let ?rows = "map split_row sys"
  let ?p = "pivot_index ?rows"
  obtain pc pa pb where piv: "?rows ! ?p = (pc, pa, pb)" by (cases "?rows ! ?p")
  from Suc.prems(1) piv have ne: "?rows \<noteq> []" and pc: "pc \<noteq> 0"
    by (auto simp add: Let_def split: if_splits)
  from Suc.prems(1) piv ne pc obtain w where
    rec: "elim n (map (reduce_row (pc, pa, pb)) (swap_out ?p ?rows)) = Some w"
    and xs: "xs = (pb - dot pa w) / pc # w"
    by (auto simp add: Let_def split: option.splits)
  have len: "\<forall>(c, a, b) \<in> set ?rows. length a = n"
    by (rule rows_of_sys(1)[OF Suc.prems(2)])
  have p: "?p < length ?rows"
    using pivot_index_props[OF ne] by (rule conjunct1)
  have "length (map (reduce_row (pc, pa, pb)) (swap_out ?p ?rows)) = n"
    using length_swap_out[OF p] Suc.prems(3) by simp
  from Suc.IH[OF rec reduced_lengths[OF len p piv] this]
  have w: "length w = n" "solves (map (reduce_row (pc, pa, pb)) (swap_out ?p ?rows)) w"
    by simp_all
  from w(2) reduce_step[OF len p piv pc, of w]
  have "\<forall>(c, a, b) \<in> set ?rows. dot (c # a) xs = b" by (simp add: xs)
  then have "solves sys xs"
    using rows_of_sys(2)[OF Suc.prems(2), of xs] by simp
  with w(1) xs show ?case by simp
qed

lemma elim_complete:
  "unique_solution n sys \<Longrightarrow> \<forall>(r, b) \<in> set sys. length r = n \<Longrightarrow> \<exists>xs. elim n sys = Some xs"
proof (induction n arbitrary: sys)
  case 0
  then show ?case by simp
next
  case (Suc n)
  let ?rows = "map split_row sys"
  let ?p = "pivot_index ?rows"
  from Suc.prems(1) obtain x where x: "length x = Suc n" "solves sys x"
      and uniq: "\<And>w. length w = Suc n \<Longrightarrow> solves sys w \<Longrightarrow> w = x"
    by (auto simp add: unique_solution_def)
  from x(1) obtain x0 xt where xx: "x = x0 # xt" "length xt = n" by (cases x) auto
  have len: "\<forall>(c, a, b) \<in> set ?rows. length a = n"
    by (rule rows_of_sys(1)[OF Suc.prems(2)])
  note sv = rows_of_sys(2)[OF Suc.prems(2)]
  have ne: "?rows \<noteq> []"
  proof
    assume "?rows = []"
    then have "sys = []" by simp
    then have "solves sys ((x0 + 1) # xt)" by (simp add: solves_def)
    from uniq[OF _ this] xx show False by simp
  qed
  obtain pc pa pb where piv: "?rows ! ?p = (pc, pa, pb)" by (cases "?rows ! ?p")
  have p: "?p < length ?rows"
    using pivot_index_props[OF ne] by (rule conjunct1)
  have mx: "\<forall>r \<in> set ?rows. \<bar>fst r\<bar> \<le> \<bar>fst (?rows ! ?p)\<bar>"
    using pivot_index_props[OF ne] by (rule conjunct2)
  have pc: "pc \<noteq> 0"
  proof
    assume z: "pc = 0"
    have "\<forall>(c, a, b) \<in> set ?rows. dot (c # a) ((x0 + 1) # xt) = b"
    proof (clarify)
      fix c a b assume in_rows: "(c, a, b) \<in> set ?rows"
      with mx piv z have "c = 0" by fastforce
      moreover from in_rows sv[of x] x(2) have "dot (c # a) x = b" by auto
      ultimately show "dot (c # a) ((x0 + 1) # xt) = b" by (simp add: xx)
    qed
    then have "solves sys ((x0 + 1) # xt)" using sv by simp
    from uniq[OF _ this] xx show False by simp
  qed
  let ?red = "map (reduce_row (pc, pa, pb)) (swap_out ?p ?rows)"
  have pin: "(pc, pa, pb) \<in> set ?rows" using p piv by (metis nth_mem)
  have x0: "x0 = (pb - dot pa xt) / pc"
  proof -
    from pin sv[of x] x(2) have "dot (pc # pa) x = pb" by auto
    then show ?thesis using pc by (simp add: xx field_simps)
  qed
  have "unique_solution n ?red"
    unfolding unique_solution_def
  proof (intro exI[of _ xt] conjI allI impI)
    show "length xt = n" by fact
    show "solves ?red xt"
      using reduce_step[OF len p piv pc, of xt] sv[of x] x(2) x0 xx by simp
  next
    fix w assume w: "length w = n \<and> solves ?red w"
    then have "\<forall>(c, a, b) \<in> set ?rows. dot (c # a) ((pb - dot pa w) / pc # w) = b"
      using reduce_step[OF len p piv pc, of w] by simp
    then have "solves sys ((pb - dot pa w) / pc # w)" using sv by simp
    from uniq[OF _ this] w xx show "w = xt" by simp
  qed
  from Suc.IH[OF this reduced_lengths[OF len p piv]] obtain w where
    "elim n ?red = Some w" by blast
  with ne piv pc show ?case
    by (simp add: Let_def)
qed

lemma solves_zip:
  assumes "is_mat n n A" "length b = n" "length x = n"
  shows "solves (zip A b) x \<longleftrightarrow> matvec A x = b"
proof
  assume s: "solves (zip A b) x"
  show "matvec A x = b"
  proof (rule nth_equalityI)
    show "length (matvec A x) = length b" using assms by (simp add: matvec_length is_mat_def)
  next
    fix i assume "i < length (matvec A x)"
    then have i: "i < n" using assms by (simp add: matvec_length is_mat_def)
    then have "(A ! i, b ! i) \<in> set (zip A b)"
      using assms by (auto simp add: set_zip is_mat_def)
    with s have "dot (A ! i) x = b ! i" by (auto simp add: solves_def)
    then show "matvec A x ! i = b ! i" using i assms by (simp add: matvec_def is_mat_def)
  qed
next
  assume m: "matvec A x = b"
  show "solves (zip A b) x"
    unfolding solves_def
  proof (clarify)
    fix r c assume "(r, c) \<in> set (zip A b)"
    then obtain i where i: "i < length A" "i < length b" "r = A ! i" "c = b ! i"
      by (auto simp add: set_zip)
    from m have "matvec A x ! i = b ! i" by simp
    with i show "dot r x = c" by (simp add: matvec_def)
  qed
qed

lemma solve_vec_sound:
  assumes "is_mat n n A" "length b = n" "solve_vec A b = Some x"
  shows "length x = n \<and> matvec A x = b"
proof -
  have rows: "\<forall>(r, c) \<in> set (zip A b). length r = n"
    using assms(1) by (auto simp add: is_mat_def dest: set_zip_leftD)
  have len: "length (zip A b) = n" using assms by (simp add: is_mat_def)
  from assms have "elim n (zip A b) = Some x" by (simp add: solve_vec_def is_mat_def)
  from elim_sound[OF this rows len] have x: "length x = n" "solves (zip A b) x" by simp_all
  with solves_zip[OF assms(1,2) x(1)] show ?thesis by simp
qed

lemma inverse_unique_solution:
  assumes "inverse_of n A B" "length x = n" "matvec A x = b"
  shows "x = matvec B b"
proof (cases "n = 0")
  case True
  with assms show ?thesis by (simp add: inverse_of_def is_mat_def matvec_def)
next
  case False
  then have n: "0 < n" by simp
  from assms(1) have A: "is_mat n n A" and B: "is_mat n n B" and BA: "matmul B A = idm n"
    by (simp_all add: inverse_of_def)
  have "x = matvec (idm n) x" using assms(2) by (simp add: matvec_idm)
  also have "\<dots> = matvec B (matvec A x)"
    unfolding BA[symmetric] by (rule matvec_matmul[OF B A assms(2) n])
  finally show ?thesis using assms(3) by simp
qed

lemma inverse_solves:
  assumes "inverse_of n A B" "length b = n"
  shows "length (matvec B b) = n \<and> matvec A (matvec B b) = b"
proof (cases "n = 0")
  case True
  with assms show ?thesis by (simp add: inverse_of_def is_mat_def matvec_def)
next
  case False
  then have n: "0 < n" by simp
  from assms(1) have A: "is_mat n n A" and B: "is_mat n n B" and AB: "matmul A B = idm n"
    by (simp_all add: inverse_of_def)
  have "matvec A (matvec B b) = matvec (matmul A B) b"
    by (rule matvec_matmul[OF A B assms(2) n, symmetric])
  also have "\<dots> = b" using assms(2) by (simp add: AB matvec_idm)
  finally show ?thesis using B by (simp add: matvec_length is_mat_def)
qed

lemma solve_vec_inverse:
  assumes "inverse_of n A B" "length b = n"
  shows "solve_vec A b = Some (matvec B b)"
proof -
  from assms(1) have A: "is_mat n n A" by (simp add: inverse_of_def)
  have rows: "\<forall>(r, c) \<in> set (zip A b). length r = n"
    using A by (auto simp add: is_mat_def dest: set_zip_leftD)
  have "unique_solution n (zip A b)"
    unfolding unique_solution_def
  proof (intro exI[of _ "matvec B b"] conjI allI impI)
    show "length (matvec B b) = n" using inverse_solves[OF assms] by simp
    then show "solves (zip A b) (matvec B b)"
      using inverse_solves[OF assms] solves_zip[OF A assms(2)] by simp
  next
    fix w assume w: "length w = n \<and> solves (zip A b) w"
    then have "matvec A w = b" using solves_zip[OF A assms(2), of w] by blast
    with w show "w = matvec B b" using inverse_unique_solution[OF assms(1), of w b] by blast
  qed
  from elim_complete[OF this rows] obtain x where x: "solve_vec A b = Some x"
    using A by (auto simp add: solve_vec_def is_mat_def)
  from solve_vec_sound[OF A assms(2) x] inverse_unique_solution[OF assms(1)] x
  show ?thesis by simp
qed

lemma solve_v_inverse:
  assumes "inverse_of n A B" "length b = n"
  shows "solve_v A b = Inr (matvec B b)"
  using assms solve_vec_inverse[OF assms]
  by (simp add: solve_v_def is_square_def inverse_of_def is_mat_def)

lemma from_cols_matvec:
  "from_cols (length B) (map (matvec B) cs) = map (\<lambda>r. map (dot r) cs) B"
proof -
  have "from_cols (length B) (map (matvec B) cs)
          = map (\<lambda>i. map (dot (B ! i)) cs) [0..<length B]"
    by (simp add: from_cols_def matvec_def)
  also have "\<dots> = map (\<lambda>r. map (dot r) cs) B"
    by (intro nth_equalityI) simp_all
  finally show ?thesis .
qed

lemma those_vec_map_Some: "those_vec (map Some xs) = Some xs"
  by (induction xs) simp_all

lemma solve_m_inverse:
  assumes "inverse_of n A B" "is_mat n k C" "0 < n"
  shows "solve_m A C = Inr (matmul B C)"
proof -
  from assms(1) have A: "is_mat n n A" and B: "is_mat n n B" by (simp_all add: inverse_of_def)
  have TC: "is_mat k n (mT C)" by (rule is_mat_mT[OF assms(2,3)])
  have "map (solve_vec A) (mT C) = map Some (map (matvec B) (mT C))"
    using TC solve_vec_inverse[OF assms(1)] by (auto simp add: is_mat_def)
  then have th: "those_vec (map (solve_vec A) (mT C)) = Some (map (matvec B) (mT C))"
    by (simp only: those_vec_map_Some)
  have z: "solve_vec A (replicate (length A) 0) = Some (matvec B (replicate n 0))"
    using solve_vec_inverse[OF assms(1), of "replicate n 0"] A by (simp add: is_mat_def)
  have "from_cols n (map (matvec B) (mT C)) = matmul B C"
    using from_cols_matvec[of B "mT C"] B by (simp add: matmul_def is_mat_def)
  with th z A assms(2) show ?thesis
    by (simp add: solve_m_def is_square_def is_mat_def)
qed

section \<open>The triangular solves of \<^verbatim>\<open>cho_solve\<close> are correct\<close>

lemma lower_tri_SucE:
  assumes "lower_tri (Suc n) L"
  obtains l z Ls where "L = (l # z) # Ls" "l \<noteq> 0" "\<forall>x \<in> set z. x = 0" "length z = n"
    "\<forall>r' \<in> set Ls. r' \<noteq> []" "lower_tri n (map tl Ls)"
  using assms by (auto split: list.splits)

lemma lower_tri_is_mat: "lower_tri n L \<Longrightarrow> is_mat n n L"
proof (induction n arbitrary: L)
  case 0
  then show ?case by (simp add: is_mat_def)
next
  case (Suc n)
  from Suc.prems obtain l z Ls where L: "L = (l # z) # Ls" "length z = n"
    "\<forall>r' \<in> set Ls. r' \<noteq> []" "lower_tri n (map tl Ls)"
    by (rule lower_tri_SucE)
  from Suc.IH[OF L(4)] have m: "length Ls = n" "\<forall>r \<in> set Ls. length (tl r) = n"
    by (auto simp add: is_mat_def)
  have "\<forall>r \<in> set Ls. length r = Suc n"
  proof
    fix r assume r: "r \<in> set Ls"
    with L(3) have "r \<noteq> []" by blast
    with m(2) r show "length r = Suc n" by (cases r) auto
  qed
  with m(1) L(1,2) show ?case by (simp add: is_mat_def)
qed

lemma dot_zeros: "\<forall>x \<in> set z. x = 0 \<Longrightarrow> dot z w = 0"
  by (induction z w rule: dot.induct) auto

lemma dot_hd_tl: "r \<noteq> [] \<Longrightarrow> dot r (x # w) = hd r * x + dot (tl r) w"
  by (cases r) auto

lemma fwd_subst_correct:
  "lower_tri n L \<Longrightarrow> length b = n \<Longrightarrow> length (fwd_subst L b) = n \<and> matvec L (fwd_subst L b) = b"
proof (induction n arbitrary: L b)
  case 0
  then show ?case by (simp add: matvec_def)
next
  case (Suc n)
  from Suc.prems(1) obtain l z Ls where L: "L = (l # z) # Ls" "l \<noteq> 0" "\<forall>x \<in> set z. x = 0"
    "length z = n" "\<forall>r' \<in> set Ls. r' \<noteq> []" "lower_tri n (map tl Ls)"
    by (rule lower_tri_SucE)
  from Suc.prems(2) obtain b0 bs where b: "b = b0 # bs" "length bs = n" by (cases b) auto
  have lenLs: "length Ls = n" using lower_tri_is_mat[OF L(6)] by (simp add: is_mat_def)
  let ?y = "b0 / l"
  let ?bs = "map2 (\<lambda>r b'. b' - hd r * ?y) Ls bs"
  let ?ys = "fwd_subst (map tl Ls) ?bs"
  have "length ?bs = n" using lenLs b(2) by simp
  from Suc.IH[OF L(6) this] have ih: "length ?ys = n" "matvec (map tl Ls) ?ys = ?bs"
    by simp_all
  have f: "fwd_subst L b = ?y # ?ys" by (simp add: L(1) b(1) Let_def)
  have rest: "map (\<lambda>r. dot r (?y # ?ys)) Ls = bs"
  proof (rule nth_equalityI)
    show "length (map (\<lambda>r. dot r (?y # ?ys)) Ls) = length bs" using lenLs b(2) by simp
  next
    fix i assume "i < length (map (\<lambda>r. dot r (?y # ?ys)) Ls)"
    then have i: "i < n" using lenLs by simp
    then have ne: "Ls ! i \<noteq> []" using L(5) lenLs by (metis nth_mem)
    from ih(2) have "matvec (map tl Ls) ?ys ! i = ?bs ! i" by simp
    then have "dot (tl (Ls ! i)) ?ys = bs ! i - hd (Ls ! i) * ?y"
      using i lenLs b(2) by (simp add: matvec_def)
    then show "map (\<lambda>r. dot r (?y # ?ys)) Ls ! i = bs ! i"
      using i lenLs dot_hd_tl[OF ne, of ?y ?ys] by simp
  qed
  have "matvec L (fwd_subst L b) = (l * ?y + dot z ?ys) # map (\<lambda>r. dot r (?y # ?ys)) Ls"
    by (subst f) (simp add: L(1) matvec_def)
  also have "\<dots> = b"
    using L(2) dot_zeros[OF L(3)] rest by (simp add: b(1))
  finally show ?case using f ih(1) by simp
qed

lemma mT_peel_col:
  assumes "is_mat (Suc m) (Suc k) A"
  shows "mT A = map hd A # mT (map tl A)"
proof -
  from assms have nc: "ncols A = Suc k" by (simp add: ncols_is_mat)
  have rows: "\<And>r. r \<in> set A \<Longrightarrow> length r = Suc k" using assms by (simp add: is_mat_def)
  have A: "A \<noteq> []" using assms by (auto simp add: is_mat_def)
  have nct: "ncols (map tl A) = k"
    using A rows by (cases A) (auto simp add: ncols_def)
  have "mT A = map (\<lambda>j. map (\<lambda>r. r ! j) A) (0 # map Suc [0..<k])"
    by (simp add: mT_def nc upt_conv_Cons map_Suc_upt del: upt_Suc)
  also have "\<dots> = map (\<lambda>r. r ! 0) A # map (\<lambda>j. map (\<lambda>r. r ! Suc j) A) [0..<k]"
    by (simp add: comp_def)
  also have "map (\<lambda>r. r ! 0) A = map hd A"
  proof (intro map_cong refl)
    fix r assume "r \<in> set A"
    then have "length r = Suc k" by (rule rows)
    then show "r ! 0 = hd r" by (cases r) auto
  qed
  also have "map (\<lambda>j. map (\<lambda>r. r ! Suc j) A) [0..<k] = mT (map tl A)"
    unfolding mT_def nct
    using rows by (auto simp add: nth_tl intro!: map_cong)
  finally show ?thesis .
qed

lemma matvec_mT_zero_row:
  assumes "\<forall>x \<in> set z. x = 0" "is_mat n n M" "length z = n"
  shows "matvec (mT (z # M)) (x0 # w) = matvec (mT M) w"
proof (cases "n = 0")
  case True
  with assms show ?thesis by (simp add: mT_def ncols_def matvec_def is_mat_def)
next
  case False
  then have nc: "ncols M = n" using assms(2) by (simp add: ncols_is_mat)
  have "matvec (mT (z # M)) (x0 # w) = map (\<lambda>j. z ! j * x0 + dot (map (\<lambda>r. r ! j) M) w) [0..<n]"
    using assms(3) by (simp add: mT_def ncols_def matvec_def)
  also have "\<dots> = map (\<lambda>j. dot (map (\<lambda>r. r ! j) M) w) [0..<n]"
    using assms(1,3) by (intro map_cong) auto
  also have "\<dots> = matvec (mT M) w"
    by (simp add: mT_def nc matvec_def)
  finally show ?thesis .
qed

lemma bwd_subst_correct:
  "lower_tri n L \<Longrightarrow> length u = n \<Longrightarrow>
     length (bwd_subst L u) = n \<and> matvec (mT L) (bwd_subst L u) = u"
proof (induction n arbitrary: L u)
  case 0
  then show ?case by (simp add: matvec_def mT_def ncols_def)
next
  case (Suc n)
  from Suc.prems(1) obtain l z Ls where L: "L = (l # z) # Ls" "l \<noteq> 0" "\<forall>x \<in> set z. x = 0"
    "length z = n" "\<forall>r' \<in> set Ls. r' \<noteq> []" "lower_tri n (map tl Ls)"
    by (rule lower_tri_SucE)
  from Suc.prems(2) obtain u0 us where u: "u = u0 # us" "length us = n" by (cases u) auto
  let ?xs = "bwd_subst (map tl Ls) us"
  let ?x0 = "(u0 - dot (map hd Ls) ?xs) / l"
  from Suc.IH[OF L(6) u(2)] have ih: "length ?xs = n" "matvec (mT (map tl Ls)) ?xs = us"
    by simp_all
  have f: "bwd_subst L u = ?x0 # ?xs" by (simp add: L(1) u(1) Let_def)
  have M: "is_mat n n (map tl Ls)" by (rule lower_tri_is_mat[OF L(6)])
  have "mT L = map hd L # mT (map tl L)"
    by (rule mT_peel_col[OF lower_tri_is_mat[OF Suc.prems(1)]])
  then have T: "mT L = (l # map hd Ls) # mT (z # map tl Ls)"
    by (simp add: L(1))
  have "matvec (mT L) (?x0 # ?xs)
          = (l * ?x0 + dot (map hd Ls) ?xs) # matvec (mT (z # map tl Ls)) (?x0 # ?xs)"
    by (subst T) (simp add: matvec_def)
  also have "matvec (mT (z # map tl Ls)) (?x0 # ?xs) = matvec (mT (map tl Ls)) ?xs"
    by (rule matvec_mT_zero_row[OF L(3) M L(4)])
  finally have "matvec (mT L) (?x0 # ?xs) = u"
    using L(2) ih(2) by (simp add: u(1))
  with f ih(1) show ?case by simp
qed

lemma cho_solve_v_correct:
  assumes "lower_tri n L" "length b = n" "0 < n"
  shows "length (cho_solve_v L b) = n \<and> matvec (matmul L (mT L)) (cho_solve_v L b) = b"
proof -
  have Lm: "is_mat n n L" by (rule lower_tri_is_mat[OF assms(1)])
  have Tm: "is_mat n n (mT L)" by (rule is_mat_mT[OF Lm assms(3)])
  from fwd_subst_correct[OF assms(1,2)]
  have fw: "length (fwd_subst L b) = n" "matvec L (fwd_subst L b) = b" by simp_all
  from bwd_subst_correct[OF assms(1) fw(1)]
  have bw: "length (cho_solve_v L b) = n" "matvec (mT L) (cho_solve_v L b) = fwd_subst L b"
    by (simp_all add: cho_solve_v_def)
  have "matvec (matmul L (mT L)) (cho_solve_v L b) = matvec L (matvec (mT L) (cho_solve_v L b))"
    by (rule matvec_matmul[OF Lm Tm bw(1) assms(3)])
  with bw fw show ?thesis by simp
qed

lemma cho_solve_v_inverse:
  assumes "factor_of n W L" "inverse_of n W Winv" "length b = n" "0 < n"
  shows "cho_solve_v L b = matvec Winv b"
proof -
  from assms(1) have L: "lower_tri n L" "matmul L (mT L) = W" by (simp_all add: factor_of_def)
  from cho_solve_v_correct[OF L(1) assms(3,4)]
  have "length (cho_solve_v L b) = n" "matvec W (cho_solve_v L b) = b"
    by (simp_all add: L(2))
  then show ?thesis by (rule inverse_unique_solution[OF assms(2)])
qed

lemma cho_solve_m_inverse:
  assumes "factor_of n W L" "inverse_of n W Winv" "is_mat n k B" "0 < n"
  shows "cho_solve_m L B = matmul Winv B"
proof -
  from assms(1) have L: "lower_tri n L" by (simp add: factor_of_def)
  have lenL: "length L = n" using lower_tri_is_mat[OF L] by (simp add: is_mat_def)
  from assms(2) have Wi: "is_mat n n Winv" by (simp add: inverse_of_def)
  have TB: "is_mat k n (mT B)" by (rule is_mat_mT[OF assms(3,4)])
  have eq: "map (cho_solve_v L) (mT B) = map (matvec Winv) (mT B)"
    using TB cho_solve_v_inverse[OF assms(1,2) _ assms(4)] by (auto simp add: is_mat_def)
  have "cho_solve_m L B = from_cols n (map (cho_solve_v L) (mT B))"
    by (simp add: cho_solve_m_def lenL)
  also have "\<dots> = from_cols n (map (matvec Winv) (mT B))"
    by (simp only: eq)
  also have "\<dots> = matmul Winv B"
    using from_cols_matvec[of Winv "mT B"] Wi by (simp add: matmul_def is_mat_def)
  finally show ?thesis .
qed

section \<open>Properties of the contraction mapping\<close>

lemma diff_at_Suc: "diff_at sim lns d (Suc n) = diff_at sim lns (step_\<delta> sim lns d) n"
  by (simp add: diff_at_def funpow_swap1)

lemma loop_unroll:
  "(\<And>m. m < n \<Longrightarrow> iterating tol (diff_at sim lns d m)) \<Longrightarrow>
   cal_\<delta>_loop sim lns tol d k = cal_\<delta>_loop sim lns tol ((step_\<delta> sim lns ^^ n) d) (k + n)"
proof (induction n arbitrary: d k)
  case 0
  then show ?case by simp
next
  case (Suc n)
  have it0: "iterating tol (log_diff lns (sim d))"
    using Suc.prems[of 0] by (simp add: diff_at_def)
  have one: "cal_\<delta>_loop sim lns tol d k = cal_\<delta>_loop sim lns tol (step_\<delta> sim lns d) (Suc k)"
    using it0 by (subst cal_\<delta>_loop.simps) (simp add: iterating_def step_\<delta>_def Let_def)
  have "\<And>m. m < n \<Longrightarrow> iterating tol (diff_at sim lns (step_\<delta> sim lns d) m)"
    using Suc.prems by (simp add: diff_at_Suc[symmetric])
  from Suc.IH[OF this, of "Suc k"] one show ?case
    by (simp add: funpow_swap1)
qed

text \<open>A loop that returns or raises has left the state \<^emph>\<open>iterating\<close> in some iteration.\<close>

lemma loop_returns_exit:
  assumes "cal_\<delta>_loop sim lns tol d k = Some r"
  shows "\<exists>m. \<not> iterating tol (diff_at sim lns d m)"
proof (rule cal_\<delta>_loop.raw_induct
         [where P = "\<lambda>sim lns tol d k r. \<exists>m. \<not> iterating tol (diff_at sim lns d m)", OF _ assms])
  fix loop :: "(fl list \<Rightarrow> fl list) \<Rightarrow> fl list \<Rightarrow> real \<Rightarrow> fl list \<Rightarrow> nat
     \<Rightarrow> ((error + unit) \<times> fl list \<times> fl list \<times> nat) option"
  fix sim lns tol d niter r
  assume IH: "\<And>sim lns tol d niter r. loop sim lns tol d niter = Some r \<Longrightarrow>
                \<exists>m. \<not> iterating tol (diff_at sim lns d m)"
  assume body: "(let sh = sim d; diff = log_diff lns sh
      in if list_ex isnan diff
         then Some (Inl Exception_nan_in_diffs, d, sh, niter)
         else if diff = []
              then Some (Inl ValueError, map2 fl_add d diff, sh, niter)
              else if converged tol diff
                   then Some (Inr (), map2 fl_add d diff, sh, niter)
                   else loop sim lns tol (map2 fl_add d diff) (Suc niter)) = Some r"
  show "\<exists>m. \<not> iterating tol (diff_at sim lns d m)"
  proof (cases "iterating tol (log_diff lns (sim d))")
    case True
    with body have "loop sim lns tol (step_\<delta> sim lns d) (Suc niter) = Some r"
      by (simp add: iterating_def step_\<delta>_def Let_def)
    from IH[OF this] obtain m where "\<not> iterating tol (diff_at sim lns (step_\<delta> sim lns d) m)"
      by blast
    then have "\<not> iterating tol (diff_at sim lns d (Suc m))"
      by (simp add: diff_at_Suc)
    then show ?thesis by blast
  next
    case False
    then have "\<not> iterating tol (diff_at sim lns d 0)"
      by (simp add: diff_at_def)
    then show ?thesis by blast
  qed
qed

lemma loop_diverges:
  assumes "\<And>m. iterating tol (diff_at sim lns d m)"
  shows "cal_\<delta>_loop sim lns tol d k = None"
  using loop_returns_exit[of sim lns tol d k] assms by (cases "cal_\<delta>_loop sim lns tol d k") auto

lemma loop_exit:
  assumes "\<And>m. m < n \<Longrightarrow> iterating tol (diff_at sim lns d m)"
    and "\<not> iterating tol (diff_at sim lns d n)"
  shows "cal_\<delta>_loop sim lns tol d k = Some (exit_value sim lns d k n)"
proof -
  have "cal_\<delta>_loop sim lns tol d k
          = cal_\<delta>_loop sim lns tol ((step_\<delta> sim lns ^^ n) d) (k + n)"
    using assms(1) by (rule loop_unroll)
  also have "\<dots> = Some (exit_value sim lns d k n)"
    using assms(2)
    by (subst cal_\<delta>_loop.simps)
       (auto simp add: iterating_def exit_value_def diff_at_def step_\<delta>_def Let_def)
  finally show ?thesis .
qed

lemma loop_result:
  assumes "cal_\<delta>_loop sim lns tol d k = Some r"
  shows "\<exists>n. (\<forall>m<n. iterating tol (diff_at sim lns d m))
             \<and> \<not> iterating tol (diff_at sim lns d n) \<and> r = exit_value sim lns d k n"
proof -
  from loop_returns_exit[OF assms] obtain m0 where "\<not> iterating tol (diff_at sim lns d m0)" ..
  then obtain n where n: "\<not> iterating tol (diff_at sim lns d n)"
      and least: "\<forall>m<n. iterating tol (diff_at sim lns d m)"
    using exists_least_iff[of "\<lambda>m. \<not> iterating tol (diff_at sim lns d m)"] by auto
  from loop_exit[of n tol sim lns d k] n least assms
  have "r = exit_value sim lns d k n" by simp
  with n least show ?thesis by blast
qed

subsection \<open>Evaluation on the one-product data set\<close>

lemma mT_single: "mT [[a]] = [[a]]"
  by (simp add: mT_def ncols_def)

lemma cholesky_single: "cholesky [[1]] = Some [[1]]"
  by (simp add: cholesky_def is_square_def)

lemma solve_v_single: "solve_v [[1]] [b] = Inr [b]"
  by (simp add: solve_v_def is_square_def solve_vec_def split_row_def pivot_index_def swap_out_def)

lemma cho_solve_v_single: "cho_solve_v [[1]] [b] = [b]"
  by (simp add: cho_solve_v_def)

lemma cho_solve_m_single: "cho_solve_m [[1]] [[b]] = [[b]]"
  by (simp add: cho_solve_m_def mT_single from_cols_def cho_solve_v_single)

lemma BLP_init_one_product: "BLP_init (one_product x) = Inr (one_state x)"
  by (simp add: BLP_init_def one_product_def one_state_def mT_single matmul_def cholesky_single
      reshape_rows_def fl_sub_def matvec_def cho_solve_v_single cho_solve_m_single solve_v_single
      ncols_def Let_def)

lemma one_state_sel:
  "\<delta> (one_state x) = [Fin 0]" "ln_s_jt (one_state x) = [Fin (ln (1 / 2))]"
  "GMM_diff (one_state x) = 1" "GMM_old (one_state x) = 0" "etol (one_state x) = 1 / 10 ^ 6"
  "\<theta> (one_state x) = None" "ix_\<theta>_T (one_state x) = None" "ix_\<theta> (one_state x) = None"
  by (simp_all add: one_state_def)

lemma simulate_balanced:
  assumes "v st = [[1]]" "D st = [[0]]" "x2 st = [[0]]" "nmkt st = 1" "nbrand st = 1" "nsimind st = 1"
  shows "simulate spec_BLP st [[a, b]] [Fin 0] = [Fin (1 / 2)]"
  using assms
  by (simp add: simulate_def spec_BLP_def spec_cal_mu_def spec_cal_s_def Let_def
      spec_cal_ind_choice_prob_def exp_Xb_def fl_mean_def fl_sum_def ncols_def)

lemma simulate_overflow:
  assumes "v st = [[1]]" "D st = [[0]]" "x2 st = [[1]]" "nmkt st = 1" "nbrand st = 1" "nsimind st = 1"
  shows "simulate spec_BLP st [[1000, 0]] [Fin 0] = [NaN]"
  using assms
  by (simp add: simulate_def spec_BLP_def spec_cal_mu_def spec_cal_s_def Let_def
      spec_cal_ind_choice_prob_def exp_Xb_def fl_mean_def fl_sum_def ncols_def)

lemma log_diff_half: "log_diff [Fin (ln (1 / 2))] [Fin (1 / 2)] = [Fin 0]"
  by (simp add: log_diff_def fl_sub_def)

lemma converged_zero: "0 < e \<Longrightarrow> converged e [Fin 0]"
  by (simp add: converged_def fl_maximum_def fl_mean_def fl_sum_def)

lemma cal_delta_balanced:
  assumes "v st = [[1]]" "D st = [[0]]" "x2 st = [[0]]" "nmkt st = 1" "nbrand st = 1" "nsimind st = 1"
    and "ln_s_jt st = [Fin (ln (1 / 2))]" "\<delta> st = [Fin 0]" "0 < etol st"
  shows "cal_\<delta> spec_BLP st [[a, b]] = Some (Inr [Fin 0], st\<lparr>\<delta> := [Fin 0], s := [Fin (1 / 2)]\<rparr>)"
proof -
  have "cal_\<delta>_loop (simulate spec_BLP st [[a, b]]) [Fin (ln (1 / 2))] (etol st) [Fin 0] 0
          = Some (Inr (), [Fin 0], [Fin (1 / 2)], 0)"
    using assms(9)
    by (subst cal_\<delta>_loop.simps)
       (simp add: simulate_balanced[OF assms(1-6)] log_diff_half converged_zero)
  then show ?thesis
    using assms(7,8) by (simp add: cal_\<delta>_def no_cols_def)
qed

lemma cal_delta_overflow:
  assumes "v st = [[1]]" "D st = [[0]]" "x2 st = [[1]]" "nmkt st = 1" "nbrand st = 1" "nsimind st = 1"
    and "ln_s_jt st = [Fin (ln (1 / 2))]" "\<delta> st = [Fin 0]"
  shows "cal_\<delta> spec_BLP st [[1000, 0]] = Some (Inl Exception_nan_in_diffs, st\<lparr>\<delta> := [Fin 0], s := [NaN]\<rparr>)"
proof -
  have "cal_\<delta>_loop (simulate spec_BLP st [[1000, 0]]) [Fin (ln (1 / 2))] (etol st) [Fin 0] 0
          = Some (Inl Exception_nan_in_diffs, [Fin 0], [NaN], 0)"
    by (subst cal_\<delta>_loop.simps)
       (simp add: simulate_overflow[OF assms(1-6)] log_diff_def fl_sub_def)
  then show ?thesis
    using assms(7,8) by (simp add: cal_\<delta>_def no_cols_def)
qed

lemma nonzero_T_row2: "nonzero_T [[a, 0]] = (if a = 0 then [] else [(0, 0)])"
  by (simp add: nonzero_T_def ncols_def numeral_2_eq_2)

lemma bcast_row2: "bcast (Suc 0) (Suc (Suc 0)) [[a, b]] = Some [[a, b]]"
  by (simp add: bcast_def ncols_def)

lemma GMM_linear_one:
  assumes "Z st = [[1]]" "Z_x1 st = [[1]]" "LinvW st = [[1]]" "x1 st = [[1]]"
  shows "GMM_linear st [0] = (Inr 0, st\<lparr>\<theta>1 := Some [0], \<xi> := Some [0],
            GMM_diff := \<bar>GMM_old st\<bar>, GMM_old := 0\<rparr>)"
  using assms
  by (simp add: GMM_linear_def mT_single matvec_def matmul_def cho_solve_v_single
      cho_solve_m_single solve_v_single vsub_def Let_def)


lemma GMM_set_theta_first_row2:
  assumes "\<theta> st = None" "ix_\<theta>_T st = None"
  shows "GMM_set_\<theta> st (Mat [[a, 0]])
           = (Inr [[a, 0]], st\<lparr>\<theta> := Some [[a, 0]], ix_\<theta>_T := Some (if a = 0 then [] else [(0, 0)])\<rparr>)"
  using assms
  by (simp add: GMM_set_\<theta>_def Let_def nonzero_T_row2 bcast_row2 ncols_def numeral_2_eq_2)

lemma GMM_set_theta_later_Mat_row2:
  assumes "\<theta> st = Some [[a, b]]" "ix_\<theta>_T st = Some ix"
  shows "GMM_set_\<theta> st (Mat [[c, d]])
           = (Inr [[c, d]], st\<lparr>\<theta> := Some [[c, d]], ix_\<theta>_T := Some ix\<rparr>)"
  using assms
  by (simp add: GMM_set_\<theta>_def Let_def bcast_row2 ncols_def numeral_2_eq_2)

lemma GMM_one_state_first:
  "GMM spec_BLP (one_state 0) (Mat [[1, 0]]) = Some (Inr 0, one_state_1st)"
proof -
  let ?st1 = "(one_state 0)\<lparr>\<theta> := Some [[1, 0]], ix_\<theta>_T := Some [(0, 0)]\<rparr>"
  let ?st2 = "?st1\<lparr>etol := adaptive_etol (GMM_diff ?st1)\<rparr>"
  let ?st3 = "?st2\<lparr>\<delta> := [Fin 0], s := [Fin (1 / 2)]\<rparr>"
  have a: "GMM_set_\<theta> (one_state 0) (Mat [[1, 0]]) = (Inr [[1, 0]], ?st1)"
    by (simp add: GMM_set_theta_first_row2 one_state_sel)
  have b: "cal_\<delta> spec_BLP ?st2 [[1, 0]] = Some (Inr [Fin 0], ?st3)"
    by (rule cal_delta_balanced) (simp_all add: one_state_def adaptive_etol_def)
  have c: "GMM_linear ?st3 [0] = (Inr 0, one_state_1st)"
    by (subst GMM_linear_one) (simp_all add: one_state_def one_state_1st_def adaptive_etol_def)
  show ?thesis
    unfolding GMM_def a using b c by (simp add: no_cols_def)
qed

lemma GMM_one_state_second:
  "GMM spec_BLP one_state_1st (Mat [[1, 5]]) = Some (Inr 0, one_state_2nd)"
proof -
  let ?st1 = "one_state_1st\<lparr>\<theta> := Some [[1, 5]], ix_\<theta>_T := Some [(0, 0)]\<rparr>"
  let ?st2 = "?st1\<lparr>etol := adaptive_etol (GMM_diff ?st1)\<rparr>"
  let ?st3 = "?st2\<lparr>\<delta> := [Fin 0], s := [Fin (1 / 2)]\<rparr>"
  have a: "GMM_set_\<theta> one_state_1st (Mat [[1, 5]]) = (Inr [[1, 5]], ?st1)"
    by (rule GMM_set_theta_later_Mat_row2[where a = 1 and b = 0 and ix = "[(0, 0)]"])
       (simp_all add: one_state_1st_def)
  have b: "cal_\<delta> spec_BLP ?st2 [[1, 5]] = Some (Inr [Fin 0], ?st3)"
    by (rule cal_delta_balanced) (simp_all add: one_state_def one_state_1st_def adaptive_etol_def)
  have c: "GMM_linear ?st3 [0] = (Inr 0, one_state_2nd)"
    by (subst GMM_linear_one)
       (simp_all add: one_state_def one_state_1st_def one_state_2nd_def adaptive_etol_def)
  show ?thesis
    unfolding GMM_def a using b c by (simp add: no_cols_def)
qed

lemma GMM_one_state_overflow:
  "GMM spec_BLP (one_state 1) (Mat [[1000, 0]]) = Some (Inl Exception_nan_in_diffs, one_state_failed)"
proof -
  let ?st1 = "(one_state 1)\<lparr>\<theta> := Some [[1000, 0]], ix_\<theta>_T := Some [(0, 0)]\<rparr>"
  let ?st2 = "?st1\<lparr>etol := adaptive_etol (GMM_diff ?st1)\<rparr>"
  have a: "GMM_set_\<theta> (one_state 1) (Mat [[1000, 0]]) = (Inr [[1000, 0]], ?st1)"
    by (simp add: GMM_set_theta_first_row2 one_state_sel)
  have b: "cal_\<delta> spec_BLP ?st2 [[1000, 0]]
             = Some (Inl Exception_nan_in_diffs, ?st2\<lparr>\<delta> := [Fin 0], s := [NaN]\<rparr>)"
    by (rule cal_delta_overflow) (simp_all add: one_state_def)
  have c: "?st2\<lparr>\<delta> := [Fin 0], s := [NaN]\<rparr> = one_state_failed"
    by (simp add: one_state_def one_state_failed_def adaptive_etol_def)
  show ?thesis
    unfolding GMM_def a using b c by (simp add: no_cols_def)
qed

lemma gradient_GMM_without_ix_theta:
  "ix_\<theta> st = None \<Longrightarrow> gradient_GMM E st c = (Inl (AttributeError ''ix_theta''), st)"
  by (simp add: gradient_GMM_def)


subsection \<open>The parameter matrix and its mask\<close>

lemma nth_update_row:
  "M[b := r] ! c = (if c = b \<and> b < length M then r else M ! c)"
  by (cases "b < length M") (auto simp add: nth_list_update list_update_beyond)

lemma put_T_shape:
  "length (put_T e M) = length M \<and> (\<forall>b. length (put_T e M ! b) = length (M ! b))"
  by (cases e) (auto simp add: put_T_def nth_update_row)

lemma put_T_other:
  "fst e \<noteq> (a, b) \<Longrightarrow> put_T e M ! b ! a = M ! b ! a"
  by (cases e) (auto simp add: put_T_def nth_update_row split: if_splits)

lemma fold_put_T:
  "length (fold put_T es M) = length M
   \<and> (\<forall>b. length (fold put_T es M ! b) = length (M ! b))
   \<and> (\<forall>a b. (a, b) \<notin> fst ` set es \<longrightarrow> fold put_T es M ! b ! a = M ! b ! a)"
proof (induction es arbitrary: M)
  case Nil
  then show ?case by simp
next
  case (Cons e es)
  show ?case
    using Cons.IH[of "put_T e M"] put_T_shape[of e M] put_T_other[of e _ _ M]
    by (auto simp add: image_iff)
qed

lemma assign_T_keeps:
  assumes "assign_T th ix vals = Inr th'"
  shows "length th' = length th \<and> (\<forall>b. length (th' ! b) = length (th ! b))
         \<and> (\<forall>a b. (a, b) \<notin> set ix \<longrightarrow> th' ! b ! a = th ! b ! a)"
proof -
  from assms obtain ws where th': "th' = fold put_T (zip ix ws) th"
    by (auto simp add: assign_T_def split: if_splits)
  have "fst ` set (zip ix ws) \<subseteq> set ix"
    by (auto dest: set_zip_leftD)
  with fold_put_T[of "zip ix ws" th] th' show ?thesis
    by blast
qed

lemma set_nonzero_T:
  "set (nonzero_T M) = {(a, b). a < ncols M \<and> b < length M \<and> M ! b ! a \<noteq> 0}"
  by (auto simp add: nonzero_T_def)

lemma bcast_self:
  assumes "rectangular M"
  shows "bcast (length M) (ncols M) M = Some M"
proof -
  have "map (\<lambda>i. map (\<lambda>j. M ! (if length M = 1 then 0 else i)
                            ! (if ncols M = 1 then 0 else j)) [0..<ncols M]) [0..<length M] = M"
  proof (rule nth_equalityI)
    show "length (map (\<lambda>i. map (\<lambda>j. M ! (if length M = 1 then 0 else i)
                            ! (if ncols M = 1 then 0 else j)) [0..<ncols M]) [0..<length M])
          = length M" by simp
  next
    fix i assume "i < length (map (\<lambda>i. map (\<lambda>j. M ! (if length M = 1 then 0 else i)
                            ! (if ncols M = 1 then 0 else j)) [0..<ncols M]) [0..<length M])"
    then have i: "i < length M" by simp
    then have len: "length (M ! i) = ncols M"
      using assms by (simp add: rectangular_def)
    have "map (\<lambda>j. M ! i ! (if ncols M = 1 then 0 else j)) [0..<ncols M] = M ! i"
      using len by (intro nth_equalityI) auto
    moreover have "(if length M = 1 then 0 else i) = i"
      using i by auto
    ultimately show "map (\<lambda>i. map (\<lambda>j. M ! (if length M = 1 then 0 else i)
                            ! (if ncols M = 1 then 0 else j)) [0..<ncols M]) [0..<length M] ! i
          = M ! i"
      using i by auto
  qed
  then show ?thesis
    by (simp add: bcast_def)
qed

lemma cal_delta_keeps_theta:
  "cal_\<delta> E st th = Some (r, st') \<Longrightarrow> \<theta> st' = \<theta> st \<and> ix_\<theta>_T st' = ix_\<theta>_T st"
  by (auto simp add: cal_\<delta>_def split: if_splits option.splits)

lemma GMM_linear_keeps_theta:
  "\<theta> (snd (GMM_linear st d)) = \<theta> st \<and> ix_\<theta>_T (snd (GMM_linear st d)) = ix_\<theta>_T st"
  by (auto simp add: GMM_linear_def Let_def split: sum.splits)

lemma GMM_theta_after:
  assumes "GMM E st c = Some (r, st')"
  shows "\<theta> st' = \<theta> (snd (GMM_set_\<theta> st c)) \<and> ix_\<theta>_T st' = ix_\<theta>_T (snd (GMM_set_\<theta> st c))"
proof -
  obtain ra sa where A: "GMM_set_\<theta> st c = (ra, sa)" by (cases "GMM_set_\<theta> st c")
  show ?thesis
  proof (cases ra)
    case (Inl e)
    with A assms show ?thesis by (auto simp add: GMM_def)
  next
    case (Inr th)
    show ?thesis
    proof (cases "no_cols th")
      case True
      with A Inr assms show ?thesis by (auto simp add: GMM_def)
    next
      case False
      with A Inr assms obtain q sq where
        q: "cal_\<delta> E (sa\<lparr>etol := adaptive_etol (GMM_diff sa)\<rparr>) th = Some (q, sq)"
        by (cases "cal_\<delta> E (sa\<lparr>etol := adaptive_etol (GMM_diff sa)\<rparr>) th")
           (auto simp add: GMM_def)
      from cal_delta_keeps_theta[OF q] have k: "\<theta> sq = \<theta> sa" "ix_\<theta>_T sq = ix_\<theta>_T sa"
        by simp_all
      from A Inr False q assms have "st' = sq \<or> (\<exists>d. st' = snd (GMM_linear sq d))"
        by (auto simp add: GMM_def split: sum.splits if_splits option.splits)
           (metis snd_conv)
      with k GMM_linear_keeps_theta A show ?thesis
        by auto
    qed
  qed
qed


lemma GMM_set_theta_first_Mat:
  assumes "\<theta> st = None" "ix_\<theta>_T st = None" "rectangular M"
  shows "GMM_set_\<theta> st (Mat M) = (Inr M, st\<lparr>\<theta> := Some M, ix_\<theta>_T := Some (nonzero_T M)\<rparr>)"
  using assms by (simp add: GMM_set_\<theta>_def Let_def bcast_self)

lemma keeps_zeros_refl: "keeps_zeros M M"
  by (simp add: keeps_zeros_def)

lemma mask_inv_first:
  assumes "\<theta> st = None" "ix_\<theta>_T st = None" "rectangular M"
    and "GMM E st (Mat M) = Some (r, st1)"
  shows "mask_inv M st1"
  using GMM_theta_after[OF assms(4)] GMM_set_theta_first_Mat[OF assms(1-3)]
  by (simp add: mask_inv_def keeps_zeros_refl)

lemma mask_inv_Vec:
  assumes "mask_inv M st" and "GMM E st (Vec c) = Some (r, st')"
  shows "mask_inv M st'"
proof -
  from assms(1) obtain th where th: "ix_\<theta>_T st = Some (nonzero_T M)" "\<theta> st = Some th"
      "keeps_zeros M th"
    by (auto simp add: mask_inv_def)
  show ?thesis
  proof (cases "assign_T th (nonzero_T M) c")
    case (Inl e)
    with th have "\<theta> (snd (GMM_set_\<theta> st (Vec c))) = Some th
        \<and> ix_\<theta>_T (snd (GMM_set_\<theta> st (Vec c))) = Some (nonzero_T M)"
      by (simp add: GMM_set_\<theta>_def Let_def)
    with GMM_theta_after[OF assms(2)] th(3) show ?thesis
      by (simp add: mask_inv_def)
  next
    case (Inr th')
    with th have after: "\<theta> (snd (GMM_set_\<theta> st (Vec c))) = Some th'
        \<and> ix_\<theta>_T (snd (GMM_set_\<theta> st (Vec c))) = Some (nonzero_T M)"
      by (simp add: GMM_set_\<theta>_def Let_def)
    from assign_T_keeps[OF Inr] have k: "length th' = length th"
        "\<And>b. length (th' ! b) = length (th ! b)"
        "\<And>a b. (a, b) \<notin> set (nonzero_T M) \<Longrightarrow> th' ! b ! a = th ! b ! a"
      by blast+
    have "keeps_zeros M th'"
      unfolding keeps_zeros_def
    proof (intro conjI allI impI)
      show "length th' = length M" using k(1) th(3) by (simp add: keeps_zeros_def)
    next
      fix b assume "b < length M"
      then show "length (th' ! b) = length (M ! b)"
        using k(2) th(3) by (simp add: keeps_zeros_def)
    next
      fix b a assume b: "b < length M" and a: "a < length (M ! b)" and z: "M ! b ! a = 0"
      have "(a, b) \<notin> set (nonzero_T M)"
        using z by (simp add: set_nonzero_T)
      then have "th' ! b ! a = th ! b ! a" by (rule k(3))
      also have "\<dots> = 0" using th(3) b a z by (simp add: keeps_zeros_def)
      finally show "th' ! b ! a = 0" .
    qed
    with GMM_theta_after[OF assms(2)] after show ?thesis
      by (simp add: mask_inv_def)
  qed
qed

lemma mask_inv_run:
  "mask_inv M st \<Longrightarrow> GMM_run E st (map Vec vs) = Some st' \<Longrightarrow> mask_inv M st'"
proof (induction vs arbitrary: st)
  case Nil
  then show ?case by simp
next
  case (Cons c vs)
  from Cons.prems(2) obtain r st1 where g: "GMM E st (Vec c) = Some (r, st1)"
      and rest: "GMM_run E st1 (map Vec vs) = Some st'"
    by (auto split: option.splits)
  from mask_inv_Vec[OF Cons.prems(1) g] rest show ?case
    by (rule Cons.IH)
qed

lemma GMM_keeps_mask:
  assumes "ix_\<theta>_T st = Some ix" and "GMM E st c = Some (r, st')"
  shows "ix_\<theta>_T st' = Some ix"
proof -
  have "ix_\<theta>_T (snd (GMM_set_\<theta> st c)) = Some ix"
    using assms(1)
    by (auto simp add: GMM_set_\<theta>_def Let_def split: option.splits cand.splits sum.splits)
  with GMM_theta_after[OF assms(2)] show ?thesis by simp
qed

lemma GMM_run_keeps_mask:
  "ix_\<theta>_T st = Some ix \<Longrightarrow> GMM_run E st cs = Some st' \<Longrightarrow> ix_\<theta>_T st' = Some ix"
proof (induction cs arbitrary: st)
  case Nil
  then show ?case by simp
next
  case (Cons c cs)
  from Cons.prems(2) obtain r st1 where g: "GMM E st c = Some (r, st1)"
      and rest: "GMM_run E st1 cs = Some st'"
    by (auto split: option.splits)
  from GMM_keeps_mask[OF Cons.prems(1) g] rest show ?case
    by (rule Cons.IH)
qed

lemma GMM_one_state_vec:
  "GMM spec_BLP one_state_1st (Vec [2]) = Some (Inr 0, one_state_vec)"
proof -
  let ?st1 = "one_state_1st\<lparr>\<theta> := Some [[2, 0]], ix_\<theta>_T := Some [(0, 0)]\<rparr>"
  let ?st2 = "?st1\<lparr>etol := adaptive_etol (GMM_diff ?st1)\<rparr>"
  let ?st3 = "?st2\<lparr>\<delta> := [Fin 0], s := [Fin (1 / 2)]\<rparr>"
  have a: "GMM_set_\<theta> one_state_1st (Vec [2]) = (Inr [[2, 0]], ?st1)"
    by (simp add: GMM_set_\<theta>_def one_state_1st_def Let_def assign_T_def put_T_def)
  have b: "cal_\<delta> spec_BLP ?st2 [[2, 0]] = Some (Inr [Fin 0], ?st3)"
    by (rule cal_delta_balanced) (simp_all add: one_state_def one_state_1st_def adaptive_etol_def)
  have c: "GMM_linear ?st3 [0] = (Inr 0, one_state_vec)"
    by (subst GMM_linear_one)
       (simp_all add: one_state_def one_state_1st_def one_state_vec_def adaptive_etol_def)
  show ?thesis
    unfolding GMM_def a using b c by (simp add: no_cols_def)
qed


section \<open>The linear algebra of the objective\<close>

lemma length_vsub: "length (vsub a b) = min (length a) (length b)"
  by (simp add: vsub_def)

lemma GMM_linear_spec:
  assumes wf: "wf_linear N q p st"
    and Wi: "inverse_of q (matmul (mT (Z st)) (Z st)) Winv"
    and Ai: "inverse_of p (spec_A (Z st) (x1 st) Winv) Ainv"
    and d: "length d = N"
  shows "GMM_linear st d =
           (Inr (spec_objective (Z st) (x1 st) Winv Ainv d),
            st\<lparr>\<theta>1 := Some (spec_theta1 (Z st) (x1 st) Winv Ainv d),
               \<xi> := Some (spec_xi (Z st) (x1 st) Winv Ainv d),
               GMM_diff := \<bar>GMM_old st - spec_objective (Z st) (x1 st) Winv Ainv d\<bar>,
               GMM_old := spec_objective (Z st) (x1 st) Winv Ainv d\<rparr>)"
proof -
  let ?Z = "Z st" and ?X = "x1 st" and ?L = "LinvW st"
  from wf have N: "0 < N" and q: "0 < q" and Zm: "is_mat N q ?Z" and Xm: "is_mat N p ?X"
    and ZX: "Z_x1 st = matmul (mT ?Z) ?X"
    and fac: "factor_of q (matmul (mT ?Z) ?Z) ?L"
    by (simp_all add: wf_linear_def)
  from Wi have Wm: "is_mat q q Winv" by (simp add: inverse_of_def)
  have TZ: "is_mat q N (mT ?Z)" by (rule is_mat_mT[OF Zm N])
  have TX: "is_mat p N (mT ?X)" by (rule is_mat_mT[OF Xm N])
  have ZXm: "is_mat q p (Z_x1 st)" unfolding ZX by (rule is_mat_matmul[OF TZ Xm N])
  have WZX: "is_mat q p (matmul Winv (Z_x1 st))" by (rule is_mat_matmul[OF Wm ZXm q])
  have XZ: "is_mat p q (matmul (mT ?X) ?Z)" by (rule is_mat_matmul[OF TX Zm N])
  have TZX: "mT (Z_x1 st) = matmul (mT ?X) ?Z"
    unfolding ZX using mT_matmul[OF TZ Xm q N] mT_mT[OF Zm N q] by simp
  have A: "matmul (mT (Z_x1 st)) (cho_solve_m ?L (Z_x1 st)) = spec_A ?Z ?X Winv"
  proof -
    have "matmul (mT (Z_x1 st)) (cho_solve_m ?L (Z_x1 st))
            = matmul (matmul (mT ?X) ?Z) (matmul Winv (Z_x1 st))"
      by (simp add: TZX cho_solve_m_inverse[OF fac Wi ZXm q])
    also have "\<dots> = matmul (mT ?X) (matmul ?Z (matmul Winv (Z_x1 st)))"
      by (rule matmul_assoc[OF TX Zm WZX N q])
    finally show ?thesis by (simp add: spec_A_def ZX)
  qed
  have lin: "\<And>w. length w = N \<Longrightarrow>
      length (matvec (mT ?Z) w) = q \<and>
      cho_solve_v ?L (matvec (mT ?Z) w) = matvec Winv (matvec (mT ?Z) w)"
  proof -
    fix w :: vec assume "length w = N"
    have l: "length (matvec (mT ?Z) w) = q" using TZ by (simp add: matvec_length is_mat_def)
    with cho_solve_v_inverse[OF fac Wi l q] show
      "length (matvec (mT ?Z) w) = q \<and>
       cho_solve_v ?L (matvec (mT ?Z) w) = matvec Winv (matvec (mT ?Z) w)"
      by simp
  qed
  have c: "matvec (mT (Z_x1 st)) (cho_solve_v ?L (matvec (mT ?Z) d))
             = matvec (mT ?X) (matvec ?Z (matvec Winv (matvec (mT ?Z) d)))"
  proof -
    have l: "length (matvec Winv (matvec (mT ?Z) d)) = q"
      using Wm by (simp add: matvec_length is_mat_def)
    show ?thesis
      using lin[OF d] matvec_matmul[OF TX Zm l N] by (simp add: TZX)
  qed
  have lc: "length (matvec (mT ?X) (matvec ?Z (matvec Winv (matvec (mT ?Z) d)))) = p"
    using TX by (simp add: matvec_length is_mat_def)
  have sol: "solve_v (matmul (mT (Z_x1 st)) (cho_solve_m ?L (Z_x1 st)))
                (matvec (mT (Z_x1 st)) (cho_solve_v ?L (matvec (mT ?Z) d)))
             = Inr (spec_theta1 ?Z ?X Winv Ainv d)"
    unfolding A c using solve_v_inverse[OF Ai lc] by (simp add: spec_theta1_def)
  let ?xi = "spec_xi ?Z ?X Winv Ainv d"
  have lxi: "length ?xi = N"
    using d Xm by (simp add: spec_xi_def length_vsub matvec_length is_mat_def)
  have g: "dot (matvec (mT ?Z) ?xi) (cho_solve_v ?L (matvec (mT ?Z) ?xi))
             = spec_objective ?Z ?X Winv Ainv d"
  proof -
    have l: "length (matvec Winv (matvec (mT ?Z) ?xi)) = q"
      using Wm by (simp add: matvec_length is_mat_def)
    have "dot ?xi (matvec ?Z (matvec Winv (matvec (mT ?Z) ?xi)))
            = dot (matvec (mT ?Z) ?xi) (matvec Winv (matvec (mT ?Z) ?xi))"
      by (rule dot_matvec_mT[OF Zm lxi l N])
    then show ?thesis
      using lin[OF lxi] by (simp add: spec_objective_def)
  qed
  show ?thesis
    unfolding GMM_linear_def Let_def sol
    using g by (simp add: spec_xi_def[symmetric])
qed


lemma wf_linear_cong:
  assumes "Z a = Z b" "x1 a = x1 b" "Z_x1 a = Z_x1 b" "LinvW a = LinvW b"
  shows "wf_linear N q p a = wf_linear N q p b"
  using assms by (simp add: wf_linear_def)

lemma GMM_set_theta_linear_fields:
  "Z (snd (GMM_set_\<theta> st c)) = Z st \<and> x1 (snd (GMM_set_\<theta> st c)) = x1 st
   \<and> Z_x1 (snd (GMM_set_\<theta> st c)) = Z_x1 st \<and> LinvW (snd (GMM_set_\<theta> st c)) = LinvW st
   \<and> GMM_old (snd (GMM_set_\<theta> st c)) = GMM_old st"
  by (auto simp add: GMM_set_\<theta>_def Let_def split: option.splits cand.splits sum.splits)

lemma cal_delta_linear_fields:
  "cal_\<delta> E st th = Some (r, st') \<Longrightarrow>
     Z st' = Z st \<and> x1 st' = x1 st \<and> Z_x1 st' = Z_x1 st \<and> LinvW st' = LinvW st
     \<and> GMM_old st' = GMM_old st"
  by (auto simp add: cal_\<delta>_def split: if_splits option.splits)

lemma cal_delta_result_is_delta:
  "cal_\<delta> E st th = Some (Inr d, st') \<Longrightarrow> \<delta> st' = d"
  by (auto simp add: cal_\<delta>_def split: if_splits option.splits sum.splits)

lemma fin_list_map_Fin: "fin_list (map Fin d) = Some d"
  by (induction d) simp_all

lemma no_nan_map_Fin: "\<not> list_ex isnan (map Fin d)"
  by (induction d) simp_all

subsection \<open>Evaluation on the two-market data set\<close>

lemma ln_half_range: "- 1 \<le> ln (1 / 2 :: real)" "ln (1 / 2 :: real) \<le> 0"
proof -
  have "(2 :: real) \<le> exp 1" using exp_ge_add_one_self[of "1 :: real"] by simp
  then have "exp (- 1 :: real) \<le> 1 / 2"
    by (simp add: exp_minus field_simps)
  then show "- 1 \<le> ln (1 / 2 :: real)"
    by (simp add: ln_ge_iff)
  show "ln (1 / 2 :: real) \<le> 0" by simp
qed

lemma fl_exp_zero: "fl_exp (Fin 0) = Fin 1"
  by simp

lemma fl_exp_ln_half: "fl_exp (Fin (ln (1 / 2))) = Fin (1 / 2)"
proof -
  have "(0 :: real) < 709782712893384 / 10 ^ 12" by simp
  then have a: "\<not> 709782712893384 / 10 ^ 12 < ln (1 / 2 :: real)"
    using ln_half_range(2) by linarith
  have "(1 :: real) < 7451332191019412 / 10 ^ 13" by simp
  then have b: "\<not> ln (1 / 2 :: real) < - (7451332191019412 / 10 ^ 13)"
    using ln_half_range(1) by linarith
  have "fl_exp (Fin (ln (1 / 2))) = Fin (exp (ln (1 / 2)))"
    by (simp only: fl_exp.simps a b if_False)
  then show ?thesis by simp
qed

lemma simulate_two_markets:
  assumes "v st = [[1], [1]]" "D st = [[0], [0]]" "x2 st = [[0], [0]]"
    "nmkt st = 2" "nbrand st = 1" "nsimind st = 1"
  shows "simulate spec_BLP st [[a, b]] [Fin 0, Fin (ln (1 / 2))] = [Fin (1 / 2), Fin (1 / 3)]"
  using assms
  by (simp add: simulate_def spec_BLP_def spec_cal_mu_def spec_cal_s_def Let_def
      spec_cal_ind_choice_prob_def exp_Xb_def fl_mean_def fl_sum_def ncols_def
      numeral_2_eq_2 fl_exp_ln_half fl_exp_zero del: fl_exp.simps)

lemma cal_delta_two_markets:
  assumes "v st = [[1], [1]]" "D st = [[0], [0]]" "x2 st = [[0], [0]]"
    "nmkt st = 2" "nbrand st = 1" "nsimind st = 1"
    and "ln_s_jt st = [Fin (ln (1 / 2)), Fin (ln (1 / 3))]"
    and "\<delta> st = [Fin 0, Fin (ln (1 / 2))]" "0 < etol st"
  shows "cal_\<delta> spec_BLP st [[a, b]]
           = Some (Inr [Fin 0, Fin (ln (1 / 2))],
                   st\<lparr>\<delta> := [Fin 0, Fin (ln (1 / 2))], s := [Fin (1 / 2), Fin (1 / 3)]\<rparr>)"
proof -
  have ld: "log_diff [Fin (ln (1 / 2)), Fin (ln (1 / 3))] [Fin (1 / 2), Fin (1 / 3)]
              = [Fin 0, Fin 0]"
    by (simp add: log_diff_def fl_sub_def)
  have cv: "converged (etol st) [Fin 0, Fin 0]"
    using assms(9) by (simp add: converged_def fl_maximum_def fl_mean_def fl_sum_def fl_max2_def)
  have "cal_\<delta>_loop (simulate spec_BLP st [[a, b]]) [Fin (ln (1 / 2)), Fin (ln (1 / 3))]
          (etol st) [Fin 0, Fin (ln (1 / 2))] 0
          = Some (Inr (), [Fin 0, Fin (ln (1 / 2))], [Fin (1 / 2), Fin (1 / 3)], 0)"
    by (subst cal_\<delta>_loop.simps) (simp add: simulate_two_markets[OF assms(1-6)] ld cv)
  then show ?thesis
    using assms(7,8) by (simp add: cal_\<delta>_def no_cols_def)
qed


lemma mT_two_by_two: "mT [[a, b], [c, d]] = [[a, c], [b, d]]"
  by (simp add: mT_def ncols_def numeral_2_eq_2)

lemma mT_two_by_one: "mT [[a], [b]] = [[a, b]]"
  by (simp add: mT_def ncols_def)

lemma mT_one_by_two: "mT [[a, b]] = [[a], [b]]"
  by (simp add: mT_def ncols_def numeral_2_eq_2)

lemma idm_two: "idm 2 = [[1, 0], [0, 1]]"
  by (simp add: idm_def numeral_2_eq_2)

lemma idm_one: "idm (Suc 0) = [[1]]"
  by (simp add: idm_def)

lemma two_markets_wf: "wf_linear 2 2 1 two_markets"
  by (simp add: wf_linear_def two_markets_def is_mat_def factor_of_def matmul_def
      mT_two_by_two mT_two_by_one numeral_2_eq_2)

lemma two_markets_W:
  "inverse_of 2 (matmul (mT (Z two_markets)) (Z two_markets)) [[1, 0], [0, 1]]"
  by (simp add: inverse_of_def two_markets_def is_mat_def matmul_def mT_two_by_two idm_two)

lemma two_markets_A:
  "inverse_of 1 (spec_A (Z two_markets) (x1 two_markets) [[1, 0], [0, 1]]) [[1 / 2]]"
  by (simp add: inverse_of_def spec_A_def two_markets_def is_mat_def matmul_def mT_two_by_two
      mT_two_by_one mT_one_by_two mT_single idm_one)

lemma two_markets_objective:
  "spec_objective (Z two_markets) (x1 two_markets) [[1, 0], [0, 1]] [[1 / 2]] [0, ln (1 / 2)]
     = (ln (1 / 2))\<^sup>2 / 2"
  by (simp add: spec_objective_def spec_xi_def spec_theta1_def two_markets_def matvec_def
      mT_two_by_two mT_two_by_one vsub_def power2_eq_square field_simps)


section \<open>The linear algebra of the variance-covariance matrix\<close>

lemma matmul_idm_left:
  assumes "is_mat n k A" "0 < n"
  shows "matmul (idm n) A = A"
proof (rule mat_eqI[of n k])
  show "is_mat n k (matmul (idm n) A)" by (rule is_mat_matmul[OF is_mat_idm assms])
  show "is_mat n k A" by fact
  fix i j assume ij: "i < n" "j < k"
  have "matmul (idm n) A ! i ! j = (\<Sum>l<n. (if i = l then 1 else 0) * A ! l ! j)"
    using ij by (simp add: matmul_nth[OF is_mat_idm assms] idm_nth)
  also have "\<dots> = (\<Sum>l<n. if l = i then A ! l ! j else 0)"
    by (intro sum.cong) auto
  also have "\<dots> = A ! i ! j" using ij by (simp add: sum.delta)
  finally show "matmul (idm n) A ! i ! j = A ! i ! j" .
qed

lemma matmul_idm_right:
  assumes "is_mat m n A" "0 < n"
  shows "matmul A (idm n) = A"
proof (rule mat_eqI[of m n])
  show "is_mat m n (matmul A (idm n))" by (rule is_mat_matmul[OF assms(1) is_mat_idm assms(2)])
  show "is_mat m n A" by fact
  fix i j assume ij: "i < m" "j < n"
  have "matmul A (idm n) ! i ! j = (\<Sum>l<n. A ! i ! l * (if l = j then 1 else 0))"
    using ij by (simp add: matmul_nth[OF assms(1) is_mat_idm assms(2)] idm_nth)
  also have "\<dots> = (\<Sum>l<n. if l = j then A ! i ! l else 0)"
    by (intro sum.cong) auto
  also have "\<dots> = A ! i ! j" using ij by (simp add: sum.delta)
  finally show "matmul A (idm n) ! i ! j = A ! i ! j" .
qed

lemma mT_idm: "0 < n \<Longrightarrow> mT (idm n) = idm n"
  by (rule mat_eqI[of n n]) (auto simp add: is_mat_idm is_mat_mT mT_nth[OF is_mat_idm] idm_nth)

lemma inverse_symmetric:
  assumes "inverse_of n A B" "mT A = A" "0 < n"
  shows "mT B = B"
proof -
  from assms(1) have A: "is_mat n n A" and B: "is_mat n n B" and AB: "matmul A B = idm n"
    by (simp_all add: inverse_of_def)
  have TB: "is_mat n n (mT B)" by (rule is_mat_mT[OF B assms(3)])
  have "matmul (mT B) A = matmul (mT B) (mT A)" by (simp add: assms(2))
  also have "\<dots> = mT (matmul A B)" by (rule mT_matmul[OF A B assms(3) assms(3), symmetric])
  also have "\<dots> = idm n" by (simp add: AB mT_idm assms(3))
  finally have 1: "matmul (mT B) A = idm n" .
  have "mT B = matmul (mT B) (matmul A B)"
    by (simp add: AB matmul_idm_right[OF TB assms(3)])
  also have "\<dots> = matmul (matmul (mT B) A) B"
    by (rule matmul_assoc[OF TB A B assms(3) assms(3), symmetric])
  also have "\<dots> = B" by (simp add: 1 matmul_idm_left[OF B assms(3)])
  finally show ?thesis .
qed

lemma gram_symmetric:
  assumes "is_mat m n A" "0 < m" "0 < n"
  shows "mT (matmul (mT A) A) = matmul (mT A) A"
  using mT_matmul[OF is_mat_mT[OF assms(1,2)] assms(1) assms(3) assms(2)] mT_mT[OF assms]
  by simp

lemma is_mat_scale_rows: "is_mat N q A \<Longrightarrow> length x = N \<Longrightarrow> is_mat N q (scale_rows A x)"
  by (auto simp add: scale_rows_def is_mat_def dest!: set_zip_leftD)

lemma is_mat_hstack: "is_mat N p A \<Longrightarrow> is_mat N r B \<Longrightarrow> is_mat N (p + r) (hstack A B)"
  by (auto simp add: hstack_def is_mat_def set_zip)

lemma dot_self_nonneg: "0 \<le> dot x x"
  by (induction x) simp_all

lemma varcov_algebra:
  assumes N: "0 < N" and q: "0 < q" and m: "0 < m"
    and Zm: "is_mat N q Zm" and H: "is_mat N m H" and xi: "length xi = N"
    and fac: "factor_of q (matmul (mT Zm) Zm) L"
    and Wi: "inverse_of q (matmul (mT Zm) Zm) Winv"
    and Bi: "inverse_of m (spec_B (matmul (mT Zm) H) Winv) Binv"
  defines "G \<equiv> matmul (mT Zm) H"
    and "Om \<equiv> spec_Omega Zm xi"
  shows "mT (matmul (mT H) Zm) = G"
    and "(case solve_m (matmul (mT G) (cho_solve_m L G))
                 (matmul (matmul (mT G) (cho_solve_m L Om)) (cho_solve_m L G)) of
            Inl e \<Rightarrow> Inl e
          | Inr t \<Rightarrow> solve_m (matmul (mT G) (cho_solve_m L G)) (mT t))
         = Inr (spec_varcov G Om Winv Binv)"
    and "spec_varcov G Om Winv Binv
           = matmul (mT (spec_root Zm xi G Winv Binv)) (spec_root Zm xi G Winv Binv)"
    and "is_mat N m (spec_root Zm xi G Winv Binv)"
proof -
  let ?Zr = "scale_rows Zm xi"
  have TZ: "is_mat q N (mT Zm)" by (rule is_mat_mT[OF Zm N])
  have TH: "is_mat m N (mT H)" by (rule is_mat_mT[OF H N])
  have Gm: "is_mat q m G" unfolding G_def by (rule is_mat_matmul[OF TZ H N])
  have Gt: "is_mat m q (mT G)" by (rule is_mat_mT[OF Gm q])
  show G_code: "mT (matmul (mT H) Zm) = G"
    unfolding G_def using mT_matmul[OF TH Zm m N] mT_mT[OF H N m] by simp
  from Wi have Wm: "is_mat q q Winv" by (simp add: inverse_of_def)
  from Bi have Bim: "is_mat m m Binv" by (simp add: inverse_of_def G_def)
  have Zr: "is_mat N q ?Zr" by (rule is_mat_scale_rows[OF Zm xi])
  have Zrt: "is_mat q N (mT ?Zr)" by (rule is_mat_mT[OF Zr N])
  have Omm: "is_mat q q Om" unfolding Om_def spec_Omega_def by (rule is_mat_matmul[OF Zrt Zr N])
  have Wsym: "mT Winv = Winv"
    by (rule inverse_symmetric[OF Wi gram_symmetric[OF Zm N q] q])
  have WG: "is_mat q m (matmul Winv G)" by (rule is_mat_matmul[OF Wm Gm q])
  have cWG: "cho_solve_m L G = matmul Winv G" by (rule cho_solve_m_inverse[OF fac Wi Gm q])
  have cWO: "cho_solve_m L Om = matmul Winv Om" by (rule cho_solve_m_inverse[OF fac Wi Omm q])
  have OWG: "is_mat q m (matmul Om (matmul Winv G))" by (rule is_mat_matmul[OF Omm WG q])
  have WOWG: "is_mat q m (matmul Winv (matmul Om (matmul Winv G)))"
    by (rule is_mat_matmul[OF Wm OWG q])
  let ?M = "matmul (mT G) (matmul Winv (matmul Om (matmul Winv G)))"
  have Mm: "is_mat m m ?M" by (rule is_mat_matmul[OF Gt WOWG q])
  have WO: "is_mat q q (matmul Winv Om)" by (rule is_mat_matmul[OF Wm Omm q])
  have Mc: "matmul (matmul (mT G) (matmul Winv Om)) (matmul Winv G) = ?M"
  proof -
    have "matmul (matmul (mT G) (matmul Winv Om)) (matmul Winv G)
            = matmul (mT G) (matmul (matmul Winv Om) (matmul Winv G))"
      by (rule matmul_assoc[OF Gt WO WG q q])
    also have "matmul (matmul Winv Om) (matmul Winv G) = matmul Winv (matmul Om (matmul Winv G))"
      by (rule matmul_assoc[OF Wm Omm WG q q])
    finally show ?thesis .
  qed
  let ?K = "matmul ?Zr (matmul Winv G)"
  have Km: "is_mat N m ?K" by (rule is_mat_matmul[OF Zr WG q])
  have Kt: "is_mat m N (mT ?K)" by (rule is_mat_mT[OF Km N])
  have GtW: "is_mat m q (matmul (mT G) Winv)" by (rule is_mat_matmul[OF Gt Wm q])
  have TWG: "mT (matmul Winv G) = matmul (mT G) Winv"
    using mT_matmul[OF Wm Gm q q] by (simp add: Wsym)
  have TK: "mT ?K = matmul (matmul (mT G) Winv) (mT ?Zr)"
    using mT_matmul[OF Zr WG N q] by (simp add: TWG)
  have ZrWG: "is_mat N m (matmul ?Zr (matmul Winv G))" by (rule Km)
  have gram: "matmul (mT ?K) ?K = ?M"
  proof -
    have "matmul (mT ?K) ?K = matmul (matmul (mT G) Winv) (matmul (mT ?Zr) ?K)"
      unfolding TK by (rule matmul_assoc[OF GtW Zrt Km q N])
    also have "matmul (mT ?Zr) ?K = matmul Om (matmul Winv G)"
      unfolding Om_def spec_Omega_def by (rule matmul_assoc[OF Zrt Zr WG N q, symmetric])
    also have "matmul (matmul (mT G) Winv) (matmul Om (matmul Winv G)) = ?M"
      by (rule matmul_assoc[OF Gt Wm OWG q q])
    finally show ?thesis .
  qed
  have Msym: "mT ?M = ?M"
    using gram_symmetric[OF Km N m] by (simp add: gram)
  let ?B = "spec_B G Winv"
  have Bm: "is_mat m m ?B" unfolding spec_B_def by (rule is_mat_matmul[OF Gt WG q])
  have Bsym: "mT ?B = ?B"
  proof -
    have "mT ?B = matmul (mT (matmul Winv G)) (mT (mT G))"
      unfolding spec_B_def by (rule mT_matmul[OF Gt WG m q])
    also have "\<dots> = matmul (matmul (mT G) Winv) G"
      by (simp add: TWG mT_mT[OF Gm q m])
    also have "\<dots> = ?B"
      unfolding spec_B_def by (rule matmul_assoc[OF Gt Wm Gm q q])
    finally show ?thesis .
  qed
  have Bi': "inverse_of m ?B Binv" using Bi by (simp add: G_def)
  have Bisym: "mT Binv = Binv" by (rule inverse_symmetric[OF Bi' Bsym m])
  have s1: "solve_m ?B ?M = Inr (matmul Binv ?M)"
    by (rule solve_m_inverse[OF Bi' Mm m])
  have BiM: "is_mat m m (matmul Binv ?M)" by (rule is_mat_matmul[OF Bim Mm m])
  have Tt: "mT (matmul Binv ?M) = matmul ?M Binv"
    using mT_matmul[OF Bim Mm m m] by (simp add: Msym Bisym)
  have MBi: "is_mat m m (matmul ?M Binv)" by (rule is_mat_matmul[OF Mm Bim m])
  have s2: "solve_m ?B (matmul ?M Binv) = Inr (matmul Binv (matmul ?M Binv))"
    by (rule solve_m_inverse[OF Bi' MBi m])
  show "(case solve_m (matmul (mT G) (cho_solve_m L G))
                 (matmul (matmul (mT G) (cho_solve_m L Om)) (cho_solve_m L G)) of
            Inl e \<Rightarrow> Inl e
          | Inr t \<Rightarrow> solve_m (matmul (mT G) (cho_solve_m L G)) (mT t))
         = Inr (spec_varcov G Om Winv Binv)"
    unfolding cWG cWO Mc using s1 s2 Tt
    by (simp add: spec_B_def spec_varcov_def)
  let ?C = "matmul ?K Binv"
  show Cm: "is_mat N m (spec_root Zm xi G Winv Binv)"
    unfolding spec_root_def by (rule is_mat_matmul[OF Km Bim m])
  have TC: "mT ?C = matmul Binv (mT ?K)"
    using mT_matmul[OF Km Bim N m] by (simp add: Bisym)
  have KBi: "is_mat N m ?C" by (rule is_mat_matmul[OF Km Bim m])
  have "matmul (mT ?C) ?C = matmul Binv (matmul (mT ?K) ?C)"
    unfolding TC by (rule matmul_assoc[OF Bim Kt KBi m N])
  also have "matmul (mT ?K) ?C = matmul (matmul (mT ?K) ?K) Binv"
    by (rule matmul_assoc[OF Kt Km Bim N m, symmetric])
  finally show "spec_varcov G Om Winv Binv
           = matmul (mT (spec_root Zm xi G Winv Binv)) (spec_root Zm xi G Winv Binv)"
    by (simp add: gram spec_varcov_def spec_root_def)
qed


lemma gram_psd:
  assumes "is_mat N m C" "0 < N" "0 < m" "length x = m"
  shows "0 \<le> dot x (matvec (matmul (mT C) C) x)"
proof -
  have TC: "is_mat m N (mT C)" by (rule is_mat_mT[OF assms(1,2)])
  have l: "length (matvec C x) = N" using assms(1) by (simp add: matvec_length is_mat_def)
  have "dot x (matvec (matmul (mT C) C) x) = dot x (matvec (mT C) (matvec C x))"
    by (simp add: matvec_matmul[OF TC assms(1) assms(4) assms(2)])
  also have "\<dots> = dot (matvec (mT (mT C)) x) (matvec C x)"
    by (rule dot_matvec_mT[OF TC assms(4) l assms(3)])
  also have "\<dots> = dot (matvec C x) (matvec C x)"
    by (simp add: mT_mT[OF assms(1,2,3)])
  finally show ?thesis by (simp add: dot_self_nonneg)
qed

lemma cal_varcov_unfold:
  assumes "\<xi> st = Some xi" "\<theta> st = Some th" "ix_\<theta>_T st = Some ix"
    and "assign_T th ix tv = Inr th'"
    and "cal_jacobian E (st\<lparr>\<theta> := Some th'\<rparr>) th' = Inr J"
  shows "cal_varcov E st tv
           = (varcov_of (LinvW st) (Z st) (x1 st) xi J, st\<lparr>\<theta> := Some th'\<rparr>)"
  using assms by (simp add: cal_varcov_def)

lemma varcov_of_spec:
  assumes wf: "wf_linear N q p st" and m: "0 < p + r" and J: "is_mat N r J"
    and xi: "length xi = N"
    and Wi: "inverse_of q (matmul (mT (Z st)) (Z st)) Winv"
    and Bi: "inverse_of (p + r) (spec_B (spec_G (Z st) (x1 st) J) Winv) Binv"
  shows "varcov_of (LinvW st) (Z st) (x1 st) xi J
           = Inr (spec_varcov (spec_G (Z st) (x1 st) J) (spec_Omega (Z st) xi) Winv Binv)"
    and "spec_varcov (spec_G (Z st) (x1 st) J) (spec_Omega (Z st) xi) Winv Binv
           = matmul (mT (spec_root (Z st) xi (spec_G (Z st) (x1 st) J) Winv Binv))
               (spec_root (Z st) xi (spec_G (Z st) (x1 st) J) Winv Binv)"
    and "is_mat N (p + r) (spec_root (Z st) xi (spec_G (Z st) (x1 st) J) Winv Binv)"
proof -
  from wf have N: "0 < N" and q: "0 < q" and Zm: "is_mat N q (Z st)" and X: "is_mat N p (x1 st)"
    and fac: "factor_of q (matmul (mT (Z st)) (Z st)) (LinvW st)"
    by (simp_all add: wf_linear_def)
  have H: "is_mat N (p + r) (hstack (x1 st) J)" by (rule is_mat_hstack[OF X J])
  have Bi': "inverse_of (p + r) (spec_B (matmul (mT (Z st)) (hstack (x1 st) J)) Winv) Binv"
    using Bi by (simp add: spec_G_def)
  note alg = varcov_algebra[OF N q m Zm H xi fac Wi Bi']
  show "varcov_of (LinvW st) (Z st) (x1 st) xi J
           = Inr (spec_varcov (spec_G (Z st) (x1 st) J) (spec_Omega (Z st) xi) Winv Binv)"
    unfolding varcov_of_def Let_def alg(1) using alg(2)
    by (simp add: spec_G_def spec_Omega_def)
  show "spec_varcov (spec_G (Z st) (x1 st) J) (spec_Omega (Z st) xi) Winv Binv
           = matmul (mT (spec_root (Z st) xi (spec_G (Z st) (x1 st) J) Winv Binv))
               (spec_root (Z st) xi (spec_G (Z st) (x1 st) J) Winv Binv)"
    using alg(3) by (simp add: spec_G_def)
  show "is_mat N (p + r) (spec_root (Z st) xi (spec_G (Z st) (x1 st) J) Winv Binv)"
    using alg(4) by (simp add: spec_G_def)
qed

subsection \<open>Evaluation on the data set whose products differ\<close>

lemma two_markets_estimated_sel:
  "\<xi> two_markets_estimated = Some [1 / 2, - 1 / 2]"
  "\<theta> two_markets_estimated = Some [[1, 0]]"
  "ix_\<theta>_T two_markets_estimated = Some [(0, 0)]"
  "Z two_markets_estimated = [[1, 0], [0, 1]]"
  "x1 two_markets_estimated = [[1], [1]]"
  "x2 two_markets_estimated = [[1], [2]]"
  "v two_markets_estimated = [[1], [1]]"
  "D two_markets_estimated = [[0], [0]]"
  "\<delta> two_markets_estimated = [Fin (- 1), Fin (- 2)]"
  "nmkt two_markets_estimated = 2" "nbrand two_markets_estimated = 1"
  "nsimind two_markets_estimated = 1"
  "LinvW two_markets_estimated = [[1, 0], [0, 1]]"
  by (simp_all add: two_markets_estimated_def two_markets_def)

lemma choice_prob_two_markets_estimated:
  assumes "v st = [[1], [1]]" "D st = [[0], [0]]" "x2 st = [[1], [2]]"
    "nmkt st = 2" "nbrand st = 1" "nsimind st = 1" "\<delta> st = [Fin (- 1), Fin (- 2)]"
  shows "cal_ind_choice_prob spec_BLP
           (exp_Xb (\<delta> st) (cal_mu spec_BLP (map hd [[1, 0]]) (map tl [[1, 0]]) (v st) (D st) (x2 st)
              (nmkt st) (nsimind st) (nbrand st))) (nmkt st) (nsimind st) (nbrand st)
         = [[Fin (1 / 2)], [Fin (1 / 2)]]"
  using assms
  by (simp add: spec_BLP_def spec_cal_mu_def Let_def
      spec_cal_ind_choice_prob_def exp_Xb_def fl_sum_def ncols_def
      numeral_2_eq_2)


lemma cal_f1_two_markets_estimated:
  assumes "v st = [[1], [1]]" "D st = [[0], [0]]" "x2 st = [[1], [2]]"
    "nmkt st = 2" "nbrand st = 1" "nsimind st = 1" "\<delta> st = [Fin (- 1), Fin (- 2)]"
  shows "cal_f1 st [[1, 0]] [[1 / 2], [1 / 2]] = [[1 / 4, 0], [1 / 2, 0]]"
  using assms
  by (simp add: cal_f1_def Let_def ncols_def f1_col_def weighted_def cumsum_rows_def
      vmul_def vadd_def vsub_def mean_def from_cols_def numeral_2_eq_2)

lemma market_H_half: "market_H (Suc 0) [[1 / 2]] = [[1 / 4]]"
  by (simp add: market_H_def msub_def diag_def matmul_def mT_single vsub_def)

lemma inverse_quarter: "inverse_of (Suc 0) [[1 / 4]] [[4]]"
  by (simp add: inverse_of_def is_mat_def matmul_def mT_single idm_one)

lemma jacobian_two_markets_estimated:
  assumes "v st = [[1], [1]]" "D st = [[0], [0]]" "x2 st = [[1], [2]]"
    "nmkt st = 2" "nbrand st = 1" "nsimind st = 1" "\<delta> st = [Fin (- 1), Fin (- 2)]"
  shows "cal_jacobian spec_BLP st [[1, 0]] = Inr [[- 1], [- 2]]"
proof -
  have s1: "solve_m [[1 / 4]] [[1 / 4]] = Inr [[1]]"
    using solve_m_inverse[OF inverse_quarter, of 1 "[[1 / 4]]"]
    by (simp add: is_mat_def matmul_def mT_single)
  have s2: "solve_m [[1 / 4]] [[1 / 2]] = Inr [[2]]"
    using solve_m_inverse[OF inverse_quarter, of 1 "[[1 / 2]]"]
    by (simp add: is_mat_def matmul_def mT_single)
  have r: "rel_cols [[1, 0]] = [0]"
    by (simp add: rel_cols_def ncols_def numeral_2_eq_2)
  have u: "[0..<2] = [0, Suc 0]" by (simp add: numeral_2_eq_2)
  show ?thesis
    unfolding cal_jacobian_def Let_def choice_prob_two_markets_estimated[OF assms]
    using assms(4-6)
    by (simp add: no_cols_def r u block_def pick_cols_def market_H_half s1 s2 mneg_def
        cal_f1_two_markets_estimated[OF assms])
qed


lemma two_markets_estimated_assign: "assign_T [[1, 0]] [(0, 0)] [1] = Inr [[1, 0]]"
  by (simp add: assign_T_def put_T_def)

lemma two_markets_estimated_jacobian:
  "cal_jacobian spec_BLP (two_markets_estimated\<lparr>\<theta> := Some [[1, 0]]\<rparr>) [[1, 0]]
     = Inr [[- 1], [- 2]]"
  by (rule jacobian_two_markets_estimated) (simp_all add: two_markets_estimated_sel)

lemma two_markets_estimated_wf: "wf_linear 2 2 1 two_markets_estimated"
  using two_markets_wf
  by (simp add: wf_linear_def two_markets_estimated_def)

lemma two_markets_estimated_W:
  "inverse_of 2 (matmul (mT (Z two_markets_estimated)) (Z two_markets_estimated)) [[1, 0], [0, 1]]"
  using two_markets_W by (simp add: two_markets_estimated_def)

lemma two_markets_estimated_G:
  "spec_G (Z two_markets_estimated) (x1 two_markets_estimated) [[- 1], [- 2]]
     = [[1, - 1], [1, - 2]]"
  by (simp add: spec_G_def two_markets_estimated_sel hstack_def matmul_def mT_two_by_two)

lemma two_markets_estimated_B:
  "inverse_of (1 + 1)
     (spec_B (spec_G (Z two_markets_estimated) (x1 two_markets_estimated) [[- 1], [- 2]])
        [[1, 0], [0, 1]]) [[5, 3], [3, 2]]"
proof -
  have "inverse_of 2 (spec_B [[1, - 1], [1, - 2]] [[1, 0], [0, 1]]) [[5, 3], [3, 2]]"
    by (simp add: inverse_of_def spec_B_def is_mat_def matmul_def mT_two_by_two idm_two)
  then show ?thesis by (simp add: two_markets_estimated_G numeral_2_eq_2)
qed

lemma two_markets_estimated_varcov:
  "spec_varcov (spec_G (Z two_markets_estimated) (x1 two_markets_estimated) [[- 1], [- 2]])
     (spec_Omega (Z two_markets_estimated) [1 / 2, - 1 / 2])
     [[1, 0], [0, 1]] [[5, 3], [3, 2]] = [[5 / 4, 3 / 4], [3 / 4, 1 / 2]]"
  unfolding two_markets_estimated_G
  by (simp add: spec_varcov_def spec_Omega_def
      two_markets_estimated_sel scale_rows_def matmul_def mT_two_by_two)

lemma two_markets_estimated_shapes:
  "0 < (1 :: nat) + 1" "is_mat 2 1 [[- 1 :: real], [- 2]]" "length [1 / 2, - 1 / 2 :: real] = 2"
  by (simp_all add: is_mat_def)

text \<open>The objective evaluated at the vector \<open>[1]\<close> reproduces the instance.\<close>

lemma simulate_two_markets_estimated:
  assumes "v st = [[1], [1]]" "D st = [[0], [0]]" "x2 st = [[1], [2]]"
    "nmkt st = 2" "nbrand st = 1" "nsimind st = 1"
  shows "simulate spec_BLP st [[1, 0]] [Fin (- 1), Fin (- 2)] = [Fin (1 / 2), Fin (1 / 2)]"
  using assms
  by (simp add: simulate_def spec_BLP_def spec_cal_mu_def spec_cal_s_def Let_def
      spec_cal_ind_choice_prob_def exp_Xb_def fl_mean_def fl_sum_def ncols_def numeral_2_eq_2)

lemma cal_delta_two_markets_estimated:
  assumes "v st = [[1], [1]]" "D st = [[0], [0]]" "x2 st = [[1], [2]]"
    "nmkt st = 2" "nbrand st = 1" "nsimind st = 1"
    and "ln_s_jt st = [Fin (ln (1 / 2)), Fin (ln (1 / 2))]"
    and "\<delta> st = [Fin (- 1), Fin (- 2)]" "0 < etol st"
  shows "cal_\<delta> spec_BLP st [[1, 0]]
           = Some (Inr [Fin (- 1), Fin (- 2)],
                   st\<lparr>\<delta> := [Fin (- 1), Fin (- 2)], s := [Fin (1 / 2), Fin (1 / 2)]\<rparr>)"
proof -
  have ld: "log_diff [Fin (ln (1 / 2)), Fin (ln (1 / 2))] [Fin (1 / 2), Fin (1 / 2)]
              = [Fin 0, Fin 0]"
    by (simp add: log_diff_def fl_sub_def)
  have cv: "converged (etol st) [Fin 0, Fin 0]"
    using assms(9) by (simp add: converged_def fl_maximum_def fl_mean_def fl_sum_def fl_max2_def)
  have "cal_\<delta>_loop (simulate spec_BLP st [[1, 0]]) [Fin (ln (1 / 2)), Fin (ln (1 / 2))]
          (etol st) [Fin (- 1), Fin (- 2)] 0
          = Some (Inr (), [Fin (- 1), Fin (- 2)], [Fin (1 / 2), Fin (1 / 2)], 0)"
    by (subst cal_\<delta>_loop.simps) (simp add: simulate_two_markets_estimated[OF assms(1-6)] ld cv)
  then show ?thesis
    using assms(7,8) by (simp add: cal_\<delta>_def no_cols_def)
qed

lemma two_markets_estimated_A:
  "inverse_of 1 (spec_A (Z two_markets_estimated) (x1 two_markets_estimated) [[1, 0], [0, 1]])
     [[1 / 2]]"
  using two_markets_A by (simp add: two_markets_estimated_def)

lemma two_markets_estimated_reproduced:
  "GMM spec_BLP two_markets_estimated (Vec [1])
     = Some (Inr (1 / 2),
             two_markets_estimated\<lparr>etol := 1 / 10 ^ 9, GMM_diff := 1 / 2, GMM_old := 1 / 2\<rparr>)"
proof -
  let ?st = two_markets_estimated
  define e where "e = adaptive_etol (GMM_diff ?st)"
  have gd: "e = 1 / 10 ^ 9"
    by (simp add: e_def adaptive_etol_def two_markets_estimated_def two_markets_def)
  have pos: "0 < e" by (simp add: gd)
  have set: "GMM_set_\<theta> ?st (Vec [1]) = (Inr [[1, 0]], ?st)"
    by (simp add: GMM_set_\<theta>_def Let_def two_markets_estimated_sel two_markets_estimated_assign)
  have cd: "cal_\<delta> spec_BLP (?st\<lparr>etol := e\<rparr>) [[1, 0]]
              = Some (Inr [Fin (- 1), Fin (- 2)], ?st\<lparr>etol := e\<rparr>)"
    using pos by (subst cal_delta_two_markets_estimated)
       (simp_all add: two_markets_estimated_def two_markets_def)
  have wf: "wf_linear 2 2 1 (?st\<lparr>etol := e\<rparr>)"
    using two_markets_estimated_wf by (simp add: wf_linear_def)
  have lin: "GMM_linear (?st\<lparr>etol := e\<rparr>) [- 1, - 2]
      = (Inr (1 / 2), ?st\<lparr>etol := e, GMM_diff := 1 / 2, GMM_old := 1 / 2\<rparr>)"
    using GMM_linear_spec[OF wf, of "[[1, 0], [0, 1]]" "[[1 / 2]]" "[- 1, - 2]"]
      two_markets_estimated_W two_markets_estimated_A
    by (simp add: spec_objective_def spec_xi_def spec_theta1_def matvec_def vsub_def
        two_markets_estimated_def two_markets_def mT_two_by_two mT_two_by_one)
  have "GMM spec_BLP ?st (Vec [1])
          = Some (Inr (1 / 2), ?st\<lparr>etol := e, GMM_diff := 1 / 2, GMM_old := 1 / 2\<rparr>)"
    using set cd lin by (simp add: GMM_def no_cols_def e_def)
  then show ?thesis by (simp only: gd)
qed


section \<open>The per-market solves of the Jacobian\<close>

text \<open>What \<^verbatim>\<open>solve\<close> returns for a matrix of right-hand sides solves the system.\<close>

lemma those_vec_Some: "those_vec os = Some xs \<Longrightarrow> os = map Some xs"
proof (induction os arbitrary: xs)
  case Nil
  then show ?case by simp
next
  case (Cons a os)
  then show ?case by (cases a) (auto split: option.splits)
qed

lemma solve_m_sound:
  assumes "solve_m A B = Inr X" "is_mat n k B" "0 < n"
  shows "is_mat n n A \<and> is_mat n k X \<and> matmul A X = B"
proof -
  from assms(1) have sq: "is_square A" and len: "length B = length A"
    by (auto simp add: solve_m_def split: if_splits)
  from assms(1) sq len obtain xs where
    th: "those_vec (map (solve_vec A) (mT B)) = Some xs" and X: "X = from_cols (length A) xs"
    by (auto simp add: solve_m_def split: option.splits)
  from assms(2) len have n: "length A = n" by (simp add: is_mat_def)
  with sq have A: "is_mat n n A" by (simp add: is_square_def is_mat_def)
  have TB: "is_mat k n (mT B)" by (rule is_mat_mT[OF assms(2,3)])
  from those_vec_Some[OF th] have m: "map (solve_vec A) (mT B) = map Some xs" .
  then have lxs: "length xs = k" using TB by (metis length_map is_mat_def)
  have col: "length (xs ! j) = n \<and> matvec A (xs ! j) = mT B ! j" if "j < k" for j
  proof -
    from m that lxs TB have "solve_vec A (mT B ! j) = Some (xs ! j)"
      by (metis is_mat_def nth_map)
    moreover have "length (mT B ! j) = n" using TB that by (simp add: is_matD)
    ultimately show ?thesis using solve_vec_sound[OF A] by blast
  qed
  have Xm: "is_mat n k X" using X n lxs by (simp add: from_cols_def is_mat_def)
  have TX: "mT X ! j = xs ! j" if "j < k" for j
  proof (rule nth_equalityI)
    have "is_mat k n (mT X)" by (rule is_mat_mT[OF Xm assms(3)])
    then show "length (mT X ! j) = length (xs ! j)" using that col by (simp add: is_matD)
  next
    fix i assume "i < length (mT X ! j)"
    moreover have "is_mat k n (mT X)" by (rule is_mat_mT[OF Xm assms(3)])
    ultimately have i: "i < n" using that by (simp add: is_matD)
    show "mT X ! j ! i = xs ! j ! i"
      using mT_nth[OF Xm assms(3) that i] X n lxs that i by (simp add: from_cols_def)
  qed
  have "matmul A X = B"
  proof (rule mat_eqI[of n k])
    have "is_mat k n (mT X)" by (rule is_mat_mT[OF Xm assms(3)])
    then show "is_mat n k (matmul A X)" using A by (auto simp add: matmul_def is_mat_def)
    show "is_mat n k B" by fact
    fix i j assume i: "i < n" and j: "j < k"
    have TXl: "length (mT X) = k" using is_mat_mT[OF Xm assms(3)] by (simp add: is_mat_def)
    have "matmul A X ! i ! j = dot (A ! i) (xs ! j)"
      using i j A TXl TX[OF j] by (simp add: matmul_def is_mat_def)
    also have "\<dots> = matvec A (xs ! j) ! i" using i A by (simp add: matvec_def is_mat_def)
    also have "\<dots> = B ! i ! j" using col[OF j] mT_nth[OF assms(2,3) j i] by simp
    finally show "matmul A X ! i ! j = B ! i ! j" .
  qed
  with A Xm show ?thesis by simp
qed

lemma dot_uminus_right: "dot r (map uminus c) = - dot r c"
  by (induction r c rule: dot.induct) simp_all

lemma mT_mneg: "is_mat n k X \<Longrightarrow> mT (mneg X) = mneg (mT X)"
proof -
  assume X: "is_mat n k X"
  have nc: "ncols (mneg X) = ncols X" by (cases X) (simp_all add: ncols_def mneg_def)
  show ?thesis
  proof (cases "n = 0")
    case True
    with X show ?thesis by (simp add: is_mat_def mT_def mneg_def ncols_def)
  next
    case False
    then have "ncols X = k" using ncols_is_mat[OF X] by simp
    with X nc show ?thesis by (auto simp add: mT_def mneg_def is_mat_def)
  qed
qed

lemma matmul_mneg: "is_mat n k X \<Longrightarrow> matmul A (mneg X) = mneg (matmul A X)"
  by (simp add: matmul_def mT_mneg) (simp add: mneg_def dot_uminus_right comp_def)


lemma length_market_H: "length (market_H ns Pm) = length Pm"
  by (simp add: market_H_def msub_def diag_def matmul_def)

lemma length_solve_m: "solve_m A B = Inr X \<Longrightarrow> length X = length A \<and> length B = length A"
  by (auto simp add: solve_m_def from_cols_def split: if_splits option.splits)

lemma block_0: "block nb 0 M = take nb M"
  by (simp add: block_def)

lemma block_Suc_append: "length X = nb \<Longrightarrow> block nb (Suc t) (X @ F) = block nb t F"
  by (simp add: block_def)

lemma jac_blocks_sound:
  assumes "jac_blocks P f1 rel nb ns ms = Inr F" "\<forall>i \<in> set ms. length (block nb i P) = nb"
  shows "length F = length ms * nb
       \<and> (\<forall>t < length ms. \<exists>X.
            solve_m (market_H ns (block nb (ms ! t) P)) (pick_cols rel (block nb (ms ! t) f1)) = Inr X
            \<and> block nb t F = mneg X)"
  using assms
proof (induction ms arbitrary: F)
  case Nil
  then show ?case by simp
next
  case (Cons i r)
  from Cons.prems(1) obtain X F' where
    X: "solve_m (market_H ns (block nb i P)) (pick_cols rel (block nb i f1)) = Inr X"
    and F': "jac_blocks P f1 rel nb ns r = Inr F'" and F: "F = mneg X @ F'"
    by (auto split: sum.splits)
  from length_solve_m[OF X] Cons.prems(2) have lX: "length (mneg X) = nb"
    by (simp add: length_market_H mneg_def)
  from Cons.IH[OF F'] Cons.prems(2) have
    IH: "length F' = length r * nb"
      "\<forall>t < length r. \<exists>X. solve_m (market_H ns (block nb (r ! t) P))
            (pick_cols rel (block nb (r ! t) f1)) = Inr X \<and> block nb t F' = mneg X"
    by simp_all
  have "\<exists>Y. solve_m (market_H ns (block nb ((i # r) ! t) P))
            (pick_cols rel (block nb ((i # r) ! t) f1)) = Inr Y \<and> block nb t F = mneg Y"
    if "t < length (i # r)" for t
  proof (cases t)
    case 0
    then show ?thesis using X F lX by (simp add: block_0)
  next
    case (Suc t')
    with that IH(2) show ?thesis using F block_Suc_append[OF lX] by simp
  qed
  with IH(1) F lX show ?case by simp
qed

lemma rel_cols_nonzero_T: "rel_cols th = map (\<lambda>(a, b). a * length th + b) (nonzero_T th)"
  by (simp add: rel_cols_def nonzero_T_def map_concat comp_def if_distrib cong: if_cong)


lemma length_block: "(i + 1) * nb \<le> length M \<Longrightarrow> length (block nb i M) = nb"
  by (simp add: block_def)

lemma is_mat_pick_cols: "is_mat (length M) (length rel) (pick_cols rel M)"
  by (simp add: pick_cols_def is_mat_def)

lemma is_mat_blocks:
  assumes "length F = M * nb" "\<forall>i < M. is_mat nb k (block nb i F)"
  shows "is_mat (M * nb) k F"
proof -
  have "length r = k" if "r \<in> set F" for r
  proof -
    from that obtain j where j: "j < length F" "F ! j = r" by (auto simp add: in_set_conv_nth)
    with assms(1) have nb: "0 < nb" by (cases nb) auto
    from j assms(1) have d: "j div nb < M"
      by (simp add: less_mult_imp_div_less)
    have m: "j mod nb < nb" using nb by simp
    have "j div nb * nb \<le> j" by simp
    then have "j div nb * nb \<le> length F" using j(1) by linarith
    then have "block nb (j div nb) F ! (j mod nb) = F ! (j div nb * nb + j mod nb)"
      using m by (simp add: block_def nth_drop del: div_mult_mod_eq)
    then have "block nb (j div nb) F ! (j mod nb) = r" using j(2) by simp
    moreover have "length (block nb (j div nb) F) = nb"
      using assms(2) d by (simp add: is_mat_def)
    ultimately have "r \<in> set (block nb (j div nb) F)" using m by (metis nth_mem)
    with assms(2) d show ?thesis by (auto simp add: is_mat_def)
  qed
  with assms(1) show ?thesis by (simp add: is_mat_def)
qed

lemma market_H_nth:
  assumes "is_mat nb ns Pm" "0 < nb" "0 < ns" "a < nb" "b < nb"
  shows "market_H ns Pm ! a ! b
           = ((if a = b then sum_list (Pm ! a) else 0) - dot (Pm ! a) (Pm ! b)) / real ns"
proof -
  have T: "mT (mT Pm) = Pm" by (rule mT_mT[OF assms(1,2,3)])
  have l: "length Pm = nb" using assms(1) by (simp add: is_mat_def)
  show ?thesis
    using assms(4,5) l
    by (simp add: market_H_def msub_def diag_def matmul_def T vsub_def)
qed

text \<open>
  Whenever \<^verbatim>\<open>cal_jacobian\<close> returns, the rows of every market solve the system of that
  market, and the columns are those of the nonzero entries of the parameter matrix
  it was given.
\<close>

lemma cal_jacobian_solves_each_market:
  assumes "cal_jacobian E st th = Inr F"
    and "fin_mat (cal_ind_choice_prob E
           (exp_Xb (\<delta> st) (cal_mu E (map hd th) (map tl th) (v st) (D st) (x2 st)
              (nmkt st) (nsimind st) (nbrand st)))
           (nmkt st) (nsimind st) (nbrand st)) = Some P"
    and "length P = nmkt st * nbrand st" and "i < nmkt st"
  shows "is_mat (nmkt st * nbrand st) (length (nonzero_T th)) F
       \<and> rel_cols th = map (\<lambda>(a, b). a * length th + b) (nonzero_T th)
       \<and> matmul (market_H (nsimind st) (block (nbrand st) i P)) (block (nbrand st) i F)
           = mneg (pick_cols (rel_cols th) (block (nbrand st) i (cal_f1 st th P)))"
proof -
  let ?nb = "nbrand st" and ?f1 = "cal_f1 st th P" and ?rel = "rel_cols th"
  from assms(1,2) have nb: "0 < ?nb"
    and jb: "jac_blocks P ?f1 ?rel ?nb (nsimind st) [0..<nmkt st] = Inr F"
    by (auto simp add: cal_jacobian_def Let_def split: if_splits)
  have lb: "length (block ?nb j P) = ?nb" if "j < nmkt st" for j
  proof -
    from that have "(j + 1) * ?nb \<le> nmkt st * ?nb" by (intro mult_le_mono1) simp
    then show ?thesis using assms(3) by (simp add: length_block)
  qed
  then have "\<forall>j \<in> set [0..<nmkt st]. length (block ?nb j P) = ?nb" by simp
  from jac_blocks_sound[OF jb this] have
    lF: "length F = nmkt st * ?nb"
    and blocks: "\<forall>t < nmkt st. \<exists>X.
       solve_m (market_H (nsimind st) (block ?nb t P)) (pick_cols ?rel (block ?nb t ?f1)) = Inr X
       \<and> block ?nb t F = mneg X"
    by simp_all
  have one: "is_mat ?nb (length ?rel) (block ?nb t F)
      \<and> matmul (market_H (nsimind st) (block ?nb t P)) (block ?nb t F)
           = mneg (pick_cols ?rel (block ?nb t ?f1))" if "t < nmkt st" for t
  proof -
    from blocks that obtain X where
      X: "solve_m (market_H (nsimind st) (block ?nb t P)) (pick_cols ?rel (block ?nb t ?f1)) = Inr X"
      and b: "block ?nb t F = mneg X" by blast
    from length_solve_m[OF X] lb[OF that]
    have "length (pick_cols ?rel (block ?nb t ?f1)) = ?nb" by (simp add: length_market_H)
    then have B: "is_mat ?nb (length ?rel) (pick_cols ?rel (block ?nb t ?f1))"
      by (simp add: pick_cols_def is_mat_def)
    from solve_m_sound[OF X B nb] have Xm: "is_mat ?nb (length ?rel) X"
      and eq: "matmul (market_H (nsimind st) (block ?nb t P)) X = pick_cols ?rel (block ?nb t ?f1)"
      by simp_all
    from Xm have "is_mat ?nb (length ?rel) (mneg X)" by (simp add: mneg_def is_mat_def)
    with b eq matmul_mneg[OF Xm] show ?thesis by simp
  qed
  have r: "length ?rel = length (nonzero_T th)" by (simp add: rel_cols_nonzero_T)
  have "is_mat (nmkt st * ?nb) (length (nonzero_T th)) F"
    using is_mat_blocks[OF lF] one r by simp
  with one[OF assms(4)] rel_cols_nonzero_T show ?thesis by blast
qed

subsection \<open>Evaluation on the one-product data set at a zero parameter\<close>

lemma GMM_one_state_zero:
  "GMM spec_BLP one_state_1st (Vec [0]) = Some (Inr 0, one_state_zero)"
proof -
  let ?st1 = "one_state_1st\<lparr>\<theta> := Some [[0, 0]], ix_\<theta>_T := Some [(0, 0)]\<rparr>"
  let ?st2 = "?st1\<lparr>etol := adaptive_etol (GMM_diff ?st1)\<rparr>"
  let ?st3 = "?st2\<lparr>\<delta> := [Fin 0], s := [Fin (1 / 2)]\<rparr>"
  have a: "GMM_set_\<theta> one_state_1st (Vec [0]) = (Inr [[0, 0]], ?st1)"
    by (simp add: GMM_set_\<theta>_def one_state_1st_def Let_def assign_T_def put_T_def)
  have b: "cal_\<delta> spec_BLP ?st2 [[0, 0]] = Some (Inr [Fin 0], ?st3)"
    by (rule cal_delta_balanced) (simp_all add: one_state_def one_state_1st_def adaptive_etol_def)
  have c: "GMM_linear ?st3 [0] = (Inr 0, one_state_zero)"
    by (subst GMM_linear_one)
       (simp_all add: one_state_def one_state_1st_def one_state_zero_def adaptive_etol_def)
  show ?thesis
    unfolding GMM_def a using b c by (simp add: no_cols_def)
qed

lemma one_state_zero_sel:
  "v one_state_zero = [[1]]" "D one_state_zero = [[0]]" "x2 one_state_zero = [[0]]"
  "nmkt one_state_zero = 1" "nbrand one_state_zero = 1" "nsimind one_state_zero = 1"
  "\<delta> one_state_zero = [Fin 0]" "\<theta> one_state_zero = Some [[0, 0]]"
  "ix_\<theta>_T one_state_zero = Some [(0, 0)]" "\<xi> one_state_zero = Some [0]"
  "Z one_state_zero = [[1]]" "x1 one_state_zero = [[1]]" "LinvW one_state_zero = [[1]]"
  by (simp_all add: one_state_zero_def one_state_1st_def one_state_def)

lemma inverse_one: "inverse_of (Suc 0) [[1]] [[1]]"
  by (simp add: inverse_of_def is_mat_def matmul_def mT_single idm_one)

lemma solve_m_one: "solve_m [[1]] [[b]] = Inr [[b]]"
  using solve_m_inverse[OF inverse_one, of 1 "[[b]]"]
  by (simp add: is_mat_def matmul_def mT_single)

lemma solve_m_no_columns: "solve_m [[1 / 4]] [[]] = Inr [[]]"
  using solve_m_inverse[OF inverse_quarter, of 0 "[[]]"]
  by (simp add: is_mat_def matmul_def mT_def ncols_def)

lemma jacobian_one_state_zero:
  "cal_jacobian spec_BLP one_state_zero [[0, 0]] = Inr [[]]"
proof -
  have P: "cal_ind_choice_prob spec_BLP
           (exp_Xb (\<delta> one_state_zero) (cal_mu spec_BLP (map hd [[0, 0]]) (map tl [[0, 0]])
              (v one_state_zero) (D one_state_zero) (x2 one_state_zero)
              (nmkt one_state_zero) (nsimind one_state_zero) (nbrand one_state_zero)))
           (nmkt one_state_zero) (nsimind one_state_zero) (nbrand one_state_zero)
         = [[Fin (1 / 2)]]"
    by (simp add: one_state_zero_sel spec_BLP_def spec_cal_mu_def Let_def
        spec_cal_ind_choice_prob_def exp_Xb_def fl_sum_def ncols_def numeral_2_eq_2)
  have r: "rel_cols [[0, 0]] = []"
    by (simp add: rel_cols_def ncols_def numeral_2_eq_2)
  show ?thesis
    unfolding cal_jacobian_def Let_def P
    by (simp add: no_cols_def r block_def pick_cols_def market_H_half solve_m_no_columns
        mneg_def one_state_zero_sel cal_f1_def from_cols_def Let_def)
qed

lemma varcov_one_state_zero:
  "cal_varcov spec_BLP one_state_zero [0] = (Inr [[0]], one_state_zero)"
proof -
  have a: "assign_T [[0, 0]] [(0, 0)] [0] = Inr [[0, 0]]"
    by (simp add: assign_T_def put_T_def)
  have s: "one_state_zero\<lparr>\<theta> := Some [[0, 0]]\<rparr> = one_state_zero"
    by (simp add: one_state_zero_def)
  show ?thesis
    by (simp add: cal_varcov_def one_state_zero_sel a s jacobian_one_state_zero varcov_of_def
        scale_rows_def hstack_def matmul_def mT_single cho_solve_m_single solve_m_one)
qed


section \<open>The factorisation stored by \<^verbatim>\<open>BLP.__init__\<close> is correct\<close>

lemma dot_Nil_right: "dot u [] = 0"
  by (cases u) simp_all

lemma dot_append_same: "length u = length w \<Longrightarrow> dot (u @ x) (w @ z) = dot u w + dot x z"
  by (induction u w rule: list_induct2) simp_all

lemma dot_append_left: "length w \<le> length u \<Longrightarrow> dot (u @ x) w = dot u w"
proof (induction w arbitrary: u)
  case Nil
  then show ?case by (simp add: dot_Nil_right)
next
  case (Cons b w)
  then obtain a u' where "u = a # u'" by (cases u) auto
  with Cons show ?case by simp
qed

lemma dot_snoc_right: "length w = length u \<Longrightarrow> dot u (w @ [l]) = dot u w"
  using dot_append_left[of u w "[l]"] by (simp add: dot_commute)

lemma dot_pad: "dot (u @ replicate a 0) (w @ replicate b 0) = dot u w"
proof (induction u w rule: list_induct2')
  case 1
  show ?case by (simp add: dot_zeros)
next
  case (2 x xs)
  have "dot (replicate b 0) ((x # xs) @ replicate a 0) = 0" by (rule dot_zeros) simp
  then show ?case by (simp add: dot_commute[of _ "replicate b 0"] dot_Nil_right)
next
  case (3 y ys)
  have "dot (replicate a 0) ((y # ys) @ replicate b 0) = 0" by (rule dot_zeros) simp
  then show ?case by simp
next
  case (4 x xs y ys)
  then show ?case by simp
qed

lemma chol_row_sound:
  assumes "chol_row Ls a acc = Some r"
    and "\<forall>k < length Ls. length (Ls ! k) = Suc (length acc + k) \<and> Ls ! k ! (length acc + k) \<noteq> 0"
  shows "length r = Suc (length acc + length Ls) \<and> take (length acc) r = acc
       \<and> length Ls < length a
       \<and> (\<forall>k < length Ls. dot r (Ls ! k) = a ! k)
       \<and> dot r r = a ! length Ls \<and> 0 < r ! (length acc + length Ls)"
  using assms
proof (induction Ls arbitrary: a acc)
  case Nil
  from Nil.prems(1) obtain a0 ar where a: "a = a0 # ar" by (cases a) auto
  with Nil.prems(1) have d: "0 < a0 - dot acc acc" and r: "r = acc @ [sqrt (a0 - dot acc acc)]"
    by (auto simp add: Let_def split: if_splits)
  from d have "sqrt (a0 - dot acc acc) * sqrt (a0 - dot acc acc) = a0 - dot acc acc" by simp
  then have "dot r r = a0" unfolding r by (simp add: dot_append_same)
  with a d r show ?case by simp
next
  case (Cons Lj Ls)
  from Cons.prems(1) obtain a0 ar where a: "a = a0 # ar" by (cases a) auto
  define e where "e = (a0 - dot acc Lj) / last Lj"
  from Cons.prems(1) a have rec: "chol_row Ls ar (acc @ [e]) = Some r" by (simp add: e_def)
  from Cons.prems(2) have Lj: "length Lj = Suc (length acc)" "Lj ! length acc \<noteq> 0"
    by (auto dest: spec[of _ 0])
  have pre: "\<forall>k < length Ls. length (Ls ! k) = Suc (length (acc @ [e]) + k)
                \<and> Ls ! k ! (length (acc @ [e]) + k) \<noteq> 0"
  proof (intro allI impI)
    fix k assume "k < length Ls"
    then have "Suc k < length (Lj # Ls)" by simp
    with Cons.prems(2) have "length ((Lj # Ls) ! Suc k) = Suc (length acc + Suc k)
                \<and> (Lj # Ls) ! Suc k ! (length acc + Suc k) \<noteq> 0" by blast
    then show "length (Ls ! k) = Suc (length (acc @ [e]) + k)
                \<and> Ls ! k ! (length (acc @ [e]) + k) \<noteq> 0" by simp
  qed
  from Cons.IH[OF rec pre] have IH:
    "length r = Suc (length (acc @ [e]) + length Ls)" "take (length (acc @ [e])) r = acc @ [e]"
    "length Ls < length ar" "\<forall>k < length Ls. dot r (Ls ! k) = ar ! k"
    "dot r r = ar ! length Ls" "0 < r ! (length (acc @ [e]) + length Ls)"
    by simp_all
  from IH(2) obtain rest where rr: "r = (acc @ [e]) @ rest"
    by (metis append_take_drop_id)
  obtain w where w: "Lj = w @ [last Lj]" "length w = length acc"
    using Lj(1) by (metis append_butlast_last_id length_butlast diff_Suc_1 length_0_conv nat.simps(3))
  have ll: "last Lj \<noteq> 0" using Lj w by (metis nth_append_length)
  have "dot r Lj = dot (acc @ [e]) Lj"
    unfolding rr using Lj(1) by (intro dot_append_left) simp
  also have "\<dots> = dot acc w + e * last Lj"
    using w dot_append_same[of acc w "[e]" "[last Lj]"] by simp
  also have "dot acc w = dot acc Lj" using w dot_snoc_right[of w acc "last Lj"] by simp
  finally have d0: "dot r Lj = a0" using ll by (simp add: e_def)
  have tk: "take (length acc) r = acc" unfolding rr by simp
  have dk: "\<forall>k < length (Lj # Ls). dot r ((Lj # Ls) ! k) = a ! k"
  proof (intro allI impI)
    fix k assume k: "k < length (Lj # Ls)"
    show "dot r ((Lj # Ls) ! k) = a ! k"
    proof (cases k)
      case 0
      then show ?thesis using d0 a by simp
    next
      case (Suc k')
      with k IH(4) a show ?thesis by simp
    qed
  qed
  from IH(1,3,5,6) a tk dk show ?case by simp
qed


lemma chol_rows_sound:
  assumes "chol_rows As Ls = Some Ls'" "chol_inv A Ls" "As = drop (length Ls) A"
  shows "chol_inv A Ls' \<and> length Ls' = length Ls + length As"
  using assms
proof (induction As arbitrary: Ls)
  case Nil
  then show ?case by simp
next
  case (Cons a As)
  let ?m = "length Ls"
  from Cons.prems(3) have m: "?m < length A" and a: "a = A ! ?m" and As: "As = drop (Suc ?m) A"
    by (metis drop_eq_Nil2 list.distinct(1) not_le_imp_less,
        metis Cons_nth_drop_Suc drop_eq_Nil2 list.distinct(1) list.inject not_le_imp_less,
        metis Cons_nth_drop_Suc drop_eq_Nil2 list.distinct(1) list.inject not_le_imp_less)
  from Cons.prems(1) obtain r where r: "chol_row Ls a [] = Some r"
    and rec: "chol_rows As (Ls @ [r]) = Some Ls'"
    by (auto split: option.splits)
  have pre: "\<forall>k < length Ls. length (Ls ! k) = Suc (length ([] :: vec) + k)
               \<and> Ls ! k ! (length ([] :: vec) + k) \<noteq> 0"
    using Cons.prems(2) by (auto simp add: chol_inv_def)
  from chol_row_sound[OF r pre] have R: "length r = Suc ?m"
    "\<forall>k < ?m. dot r (Ls ! k) = a ! k" "dot r r = a ! ?m" "0 < r ! ?m"
    by simp_all
  have inv: "chol_inv A (Ls @ [r])"
    unfolding chol_inv_def
  proof (intro allI impI)
    fix i assume i: "i < length (Ls @ [r])"
    show "length ((Ls @ [r]) ! i) = Suc i \<and> 0 < (Ls @ [r]) ! i ! i
        \<and> (\<forall>j \<le> i. dot ((Ls @ [r]) ! i) ((Ls @ [r]) ! j) = A ! i ! j)"
    proof (cases "i < ?m")
      case True
      with Cons.prems(2) show ?thesis by (auto simp add: chol_inv_def nth_append)
    next
      case False
      with i have im: "i = ?m" by simp
      have "dot r ((Ls @ [r]) ! j) = A ! ?m ! j" if "j \<le> ?m" for j
      proof (cases "j < ?m")
        case True
        with R(2) a show ?thesis by (simp add: nth_append)
      next
        case False
        with that have "j = ?m" by simp
        with R(3) a show ?thesis by simp
      qed
      with R(1,4) im show ?thesis by simp
    qed
  qed
  from Cons.IH[OF rec inv] As show ?case by simp
qed

lemma lower_triI:
  assumes "length L = n"
    and "\<forall>i < n. length (L ! i) = n \<and> L ! i ! i \<noteq> 0 \<and> (\<forall>j. i < j \<and> j < n \<longrightarrow> L ! i ! j = 0)"
  shows "lower_tri n L"
  using assms
proof (induction n arbitrary: L)
  case 0
  then show ?case by simp
next
  case (Suc n)
  from Suc.prems(1) obtain r Ls where L: "L = r # Ls" "length Ls = n" by (cases L) auto
  from Suc.prems(2) L have r: "length r = Suc n" "r ! 0 \<noteq> 0" "\<forall>j. 0 < j \<and> j < Suc n \<longrightarrow> r ! j = 0"
    by (auto dest: spec[of _ 0])
  then obtain l z where rz: "r = l # z" "length z = n" by (cases r) auto
  have z: "\<forall>x \<in> set z. x = 0"
  proof
    fix x assume "x \<in> set z"
    then obtain j where "j < n" "z ! j = x" using rz(2) by (auto simp add: in_set_conv_nth)
    with r(3) rz show "x = 0" by (auto dest: spec[of _ "Suc j"])
  qed
  have rows: "length (Ls ! i) = Suc n \<and> Ls ! i ! Suc i \<noteq> 0
        \<and> (\<forall>j. Suc i < j \<and> j < Suc n \<longrightarrow> Ls ! i ! j = 0)" if "i < n" for i
    using Suc.prems(2) L that by (auto dest: spec[of _ "Suc i"])
  have ne: "\<forall>r' \<in> set Ls. r' \<noteq> []"
  proof
    fix r' assume "r' \<in> set Ls"
    then obtain i where "i < n" "Ls ! i = r'" using L(2) by (auto simp add: in_set_conv_nth)
    with rows[of i] show "r' \<noteq> []" by auto
  qed
  have "lower_tri n (map tl Ls)"
  proof (rule Suc.IH)
    show "length (map tl Ls) = n" using L(2) by simp
    show "\<forall>i < n. length (map tl Ls ! i) = n \<and> map tl Ls ! i ! i \<noteq> 0
            \<and> (\<forall>j. i < j \<and> j < n \<longrightarrow> map tl Ls ! i ! j = 0)"
    proof (intro allI impI)
      fix i assume i: "i < n"
      from rows[OF i] obtain c t where ct: "Ls ! i = c # t" by (cases "Ls ! i") auto
      with rows[OF i] have "length t = n" "t ! i \<noteq> 0" "\<forall>j. i < j \<and> j < n \<longrightarrow> t ! j = 0"
        by (auto dest: spec[of _ "Suc j" for j])
      then show "length (map tl Ls ! i) = n \<and> map tl Ls ! i ! i \<noteq> 0
            \<and> (\<forall>j. i < j \<and> j < n \<longrightarrow> map tl Ls ! i ! j = 0)"
        using i L(2) ct by simp
    qed
  qed
  with L rz r(2) z ne show ?case by simp
qed


lemma cholesky_factor:
  assumes "cholesky A = Some L" "is_mat n n A" "mT A = A" "0 < n"
  shows "factor_of n A L"
proof -
  from assms(2) have lenA: "length A = n" by (simp add: is_mat_def)
  from assms(1) obtain Ls where Ls: "chol_rows A [] = Some Ls"
    and L: "L = map (\<lambda>r. r @ replicate (n - length r) 0) Ls"
    by (auto simp add: cholesky_def lenA split: if_splits option.splits)
  have "chol_inv A []" by (simp add: chol_inv_def)
  from chol_rows_sound[OF Ls this] have inv: "chol_inv A Ls" and lenLs: "length Ls = n"
    by (simp_all add: lenA)
  have row: "L ! i = Ls ! i @ replicate (n - Suc i) 0" "length (Ls ! i) = Suc i"
    "0 < Ls ! i ! i" if "i < n" for i
    using that inv lenLs by (simp_all add: L chol_inv_def)
  have lenL: "length L = n" by (simp add: L lenLs)
  have Lm: "is_mat n n L"
    unfolding is_mat_def
  proof (intro conjI ballI)
    show "length L = n" by fact
    fix r assume "r \<in> set L"
    then obtain i where "i < n" "L ! i = r" using lenL by (auto simp add: in_set_conv_nth)
    with row[of i] show "length r = n" by auto
  qed
  have tri: "lower_tri n L"
  proof (rule lower_triI[OF lenL], intro allI impI)
    fix i assume i: "i < n"
    have "L ! i ! j = 0" if "i < j \<and> j < n" for j
    proof -
      from that have "j - Suc i < n - Suc i" by linarith
      then have "replicate (n - Suc i) (0 :: real) ! (j - Suc i) = 0" by (rule nth_replicate)
      with that row[OF i] show ?thesis by (simp add: nth_append)
    qed
    moreover have "L ! i ! i \<noteq> 0" using row[OF i] by (simp add: nth_append)
    moreover have "length (L ! i) = n" using row[OF i] i by simp
    ultimately show "length (L ! i) = n \<and> L ! i ! i \<noteq> 0
        \<and> (\<forall>j. i < j \<and> j < n \<longrightarrow> L ! i ! j = 0)" by blast
  qed
  have sym: "A ! i ! j = A ! j ! i" if "i < n" "j < n" for i j
    using mT_nth[OF assms(2) assms(4) that(1) that(2)] assms(3) by simp
  have low: "dot (L ! i) (L ! j) = A ! i ! j" if "i < n" "j \<le> i" for i j
  proof -
    from that have j: "j < n" by simp
    have "dot (L ! i) (L ! j) = dot (Ls ! i) (Ls ! j)"
      by (simp add: row(1)[OF that(1)] row(1)[OF j] dot_pad)
    also have "\<dots> = A ! i ! j" using inv that lenLs by (simp add: chol_inv_def)
    finally show ?thesis .
  qed
  have TT: "mT (mT L) = L" by (rule mT_mT[OF Lm assms(4) assms(4)])
  have "matmul L (mT L) = A"
  proof (rule mat_eqI[of n n])
    show "is_mat n n (matmul L (mT L))"
      by (rule is_mat_matmul[OF Lm is_mat_mT[OF Lm assms(4)] assms(4)])
    show "is_mat n n A" by fact
    fix i j assume i: "i < n" and j: "j < n"
    have "matmul L (mT L) ! i ! j = dot (L ! i) (L ! j)"
      using i j lenL by (simp add: matmul_def TT)
    also have "\<dots> = A ! i ! j"
    proof (cases "j \<le> i")
      case True
      then show ?thesis by (rule low[OF i])
    next
      case False
      then have "i \<le> j" by simp
      from low[OF j this] sym[OF i j] show ?thesis by (simp add: dot_commute)
    qed
    finally show "matmul L (mT L) ! i ! j = A ! i ! j" .
  qed
  with tri show ?thesis by (simp add: factor_of_def)
qed

lemma BLP_init_wf_linear:
  assumes "BLP_init dt = Inr st" "is_mat N q (data_Z dt)" "is_mat N p (data_x1 dt)"
    "0 < N" "0 < q"
  shows "wf_linear N q p st"
proof -
  let ?Z = "data_Z dt"
  from assms(1) obtain L where L: "cholesky (matmul (mT ?Z) ?Z) = Some L"
    and f: "Z st = ?Z" "x1 st = data_x1 dt" "Z_x1 st = matmul (mT ?Z) (data_x1 dt)" "LinvW st = L"
    by (auto simp add: BLP_init_def Let_def split: if_splits option.splits sum.splits)
  have W: "is_mat q q (matmul (mT ?Z) ?Z)"
    by (rule is_mat_matmul[OF is_mat_mT[OF assms(2,4)] assms(2,4)])
  have "factor_of q (matmul (mT ?Z) ?Z) L"
    by (rule cholesky_factor[OF L W gram_symmetric[OF assms(2,4,5)] assms(5)])
  with f assms(2-5) show ?thesis by (simp add: wf_linear_def)
qed

text \<open>
  An instance built from \<open>N\<close> observations of \<open>q\<close> instruments and \<open>p\<close> regressors is
  well formed, and every objective evaluation leaves it so.
\<close>

lemma GMM_linear_linear_fields:
  "Z (snd (GMM_linear st d)) = Z st \<and> x1 (snd (GMM_linear st d)) = x1 st
   \<and> Z_x1 (snd (GMM_linear st d)) = Z_x1 st \<and> LinvW (snd (GMM_linear st d)) = LinvW st"
  by (auto simp add: GMM_linear_def Let_def split: sum.splits)

lemma GMM_keeps_wf_linear:
  assumes "GMM E st c = Some (r, st')" "wf_linear N q p st"
  shows "wf_linear N q p st'"
proof -
  obtain ra sa where A: "GMM_set_\<theta> st c = (ra, sa)" by (cases "GMM_set_\<theta> st c")
  from GMM_set_theta_linear_fields[of st c] A
  have sa: "Z sa = Z st" "x1 sa = x1 st" "Z_x1 sa = Z_x1 st" "LinvW sa = LinvW st" by simp_all
  have "Z st' = Z st \<and> x1 st' = x1 st \<and> Z_x1 st' = Z_x1 st \<and> LinvW st' = LinvW st"
  proof (cases ra)
    case (Inl e)
    with A assms(1) sa show ?thesis by (auto simp add: GMM_def)
  next
    case (Inr th)
    show ?thesis
    proof (cases "no_cols th")
      case True
      with A Inr assms(1) sa show ?thesis by (auto simp add: GMM_def)
    next
      case False
      from assms(1) A Inr False obtain rb sb where
        B: "cal_\<delta> E (sa\<lparr>etol := adaptive_etol (GMM_diff sa)\<rparr>) th = Some (rb, sb)"
        by (cases "cal_\<delta> E (sa\<lparr>etol := adaptive_etol (GMM_diff sa)\<rparr>) th")
           (auto simp add: GMM_def)
      from cal_delta_linear_fields[OF B] sa
      have sb: "Z sb = Z st" "x1 sb = x1 st" "Z_x1 sb = Z_x1 st" "LinvW sb = LinvW st" by simp_all
      from assms(1) A Inr False B have
        "st' = sb \<or> (\<exists>d. st' = snd (GMM_linear sb d))"
        by (auto simp add: GMM_def split: sum.splits if_splits option.splits)
           (metis snd_conv)
      with sb GMM_linear_linear_fields show ?thesis by auto
    qed
  qed
  with assms(2) show ?thesis by (simp add: wf_linear_def)
qed


section \<open>The contraction mapping on finite values\<close>

text \<open>
  \<^verbatim>\<open>cal_\<delta>\<close> returns exactly at the first iteration whose difference passes the test of
  the loop, with \<open>\<delta>\<close> after that many additions.
\<close>

lemma cal_delta_returns_iff:
  "cal_\<delta> E st th = Some (Inr d', st') \<longleftrightarrow>
     \<not> no_cols th \<and>
     (\<exists>n. (\<forall>m<n. iterating (etol st) (diff_at (simulate E st th) (ln_s_jt st) (\<delta> st) m))
        \<and> \<not> list_ex isnan (diff_at (simulate E st th) (ln_s_jt st) (\<delta> st) n)
        \<and> diff_at (simulate E st th) (ln_s_jt st) (\<delta> st) n \<noteq> []
        \<and> converged (etol st) (diff_at (simulate E st th) (ln_s_jt st) (\<delta> st) n)
        \<and> d' = (step_\<delta> (simulate E st th) (ln_s_jt st) ^^ Suc n) (\<delta> st)
        \<and> st' = st\<lparr>\<delta> := d',
                    s := simulate E st th ((step_\<delta> (simulate E st th) (ln_s_jt st) ^^ n) (\<delta> st))\<rparr>)"
  (is "?L \<longleftrightarrow> ?R")
proof
  assume L: ?L
  then have nc: "\<not> no_cols th"
    by (auto simp add: cal_\<delta>_def split: if_splits)
  from L nc obtain r where
    r: "cal_\<delta>_loop (simulate E st th) (ln_s_jt st) (etol st) (\<delta> st) 0 = Some r"
    by (cases "cal_\<delta>_loop (simulate E st th) (ln_s_jt st) (etol st) (\<delta> st) 0")
       (auto simp add: cal_\<delta>_def)
  from loop_result[OF r] obtain n where
    n: "\<forall>m<n. iterating (etol st) (diff_at (simulate E st th) (ln_s_jt st) (\<delta> st) m)"
       "\<not> iterating (etol st) (diff_at (simulate E st th) (ln_s_jt st) (\<delta> st) n)"
       "r = exit_value (simulate E st th) (ln_s_jt st) (\<delta> st) 0 n"
    by blast
  from L nc r n(3) have
    "\<not> list_ex isnan (diff_at (simulate E st th) (ln_s_jt st) (\<delta> st) n)
     \<and> diff_at (simulate E st th) (ln_s_jt st) (\<delta> st) n \<noteq> []
     \<and> d' = (step_\<delta> (simulate E st th) (ln_s_jt st) ^^ Suc n) (\<delta> st)
     \<and> st' = st\<lparr>\<delta> := d',
                 s := simulate E st th ((step_\<delta> (simulate E st th) (ln_s_jt st) ^^ n) (\<delta> st))\<rparr>"
    by (auto simp add: cal_\<delta>_def exit_value_def Let_def split: if_splits)
  with n(1,2) nc show ?R
    unfolding iterating_def by blast
next
  assume R: ?R
  then obtain n where
    n: "\<forall>m<n. iterating (etol st) (diff_at (simulate E st th) (ln_s_jt st) (\<delta> st) m)"
       "\<not> list_ex isnan (diff_at (simulate E st th) (ln_s_jt st) (\<delta> st) n)"
       "diff_at (simulate E st th) (ln_s_jt st) (\<delta> st) n \<noteq> []"
       "converged (etol st) (diff_at (simulate E st th) (ln_s_jt st) (\<delta> st) n)"
       "d' = (step_\<delta> (simulate E st th) (ln_s_jt st) ^^ Suc n) (\<delta> st)"
       "st' = st\<lparr>\<delta> := d',
                 s := simulate E st th ((step_\<delta> (simulate E st th) (ln_s_jt st) ^^ n) (\<delta> st))\<rparr>"
    and nc: "\<not> no_cols th"
    by blast
  have "\<not> iterating (etol st) (diff_at (simulate E st th) (ln_s_jt st) (\<delta> st) n)"
    using n(4) by (simp add: iterating_def)
  with n(1) have
    "cal_\<delta>_loop (simulate E st th) (ln_s_jt st) (etol st) (\<delta> st) 0
       = Some (exit_value (simulate E st th) (ln_s_jt st) (\<delta> st) 0 n)"
    by (intro loop_exit) auto
  with n(2,3,5,6) nc show ?L
    by (simp add: cal_\<delta>_def exit_value_def Let_def)
qed

text \<open>
  On finite arrays the test of the loop is the dual criterion and the difference is
  that of the logarithms of the shares.
\<close>

lemma foldl_fl_max2_Fin: "foldl fl_max2 (Fin a) (map Fin r) = Fin (foldl max a r)"
proof (induction r arbitrary: a)
  case Nil
  show ?case by simp
next
  case (Cons b r)
  have "fl_max2 (Fin a) (Fin b) = Fin (max a b)" by (simp add: fl_max2_def max_def)
  with Cons show ?case by simp
qed

lemma foldl_max_Max: "foldl max a r = Max (set (a # r))"
proof (induction r arbitrary: a)
  case Nil
  show ?case by simp
next
  case (Cons b r)
  have "Max (set (max a b # r)) = Max (set (a # b # r))"
    by (cases "r = []") (simp_all add: max.assoc)
  with Cons show ?case by simp
qed

lemma fl_maximum_Fin: "xs \<noteq> [] \<Longrightarrow> fl_maximum (map Fin xs) = Fin (Max (set xs))"
  by (cases xs) (simp_all add: fl_maximum_def foldl_fl_max2_Fin foldl_max_Max)

lemma foldl_fl_add_Fin: "foldl fl_add (Fin a) (map Fin xs) = Fin (a + sum_list xs)"
  by (induction xs arbitrary: a) simp_all

lemma fl_mean_Fin: "xs \<noteq> [] \<Longrightarrow> fl_mean (map Fin xs) = Fin (sum_list xs / real (length xs))"
  by (simp add: fl_mean_def fl_sum_def foldl_fl_add_Fin)

lemma map_fl_abs_Fin: "map fl_abs (map Fin df) = map Fin (map abs df)"
  by simp

lemma converged_Fin:
  "df \<noteq> [] \<Longrightarrow> converged tol (map Fin df) \<longleftrightarrow> spec_converged tol df"
proof -
  assume "df \<noteq> []"
  then have ne: "map abs df \<noteq> []" by simp
  have m: "fl_maximum (map Fin (map abs df)) = Fin (Max (set (map abs df)))"
    by (rule fl_maximum_Fin[OF ne])
  have me: "fl_mean (map Fin (map abs df))
              = Fin (sum_list (map abs df) / real (length (map abs df)))"
    by (rule fl_mean_Fin[OF ne])
  have l: "length (map abs df) = length df" by simp
  show ?thesis
    unfolding converged_def spec_converged_def map_fl_abs_Fin m me l
    by (simp only: fl_less.simps)
qed

lemma iterating_Fin:
  "df \<noteq> [] \<Longrightarrow> iterating tol (map Fin df) \<longleftrightarrow> \<not> spec_converged tol df"
  by (simp add: iterating_def no_nan_map_Fin converged_Fin)

lemma log_diff_Fin:
  assumes "\<forall>a \<in> set obs. 0 < a" "\<forall>b \<in> set sh. 0 < b"
  shows "log_diff (map (\<lambda>a. fl_log (Fin a)) obs) (map Fin sh)
           = map Fin (spec_log_share_diff obs sh)"
  using assms
proof (induction obs arbitrary: sh)
  case Nil
  show ?case by (simp add: log_diff_def spec_log_share_diff_def)
next
  case (Cons a obs)
  show ?case
  proof (cases sh)
    case Nil
    then show ?thesis by (simp add: log_diff_def spec_log_share_diff_def)
  next
    case (Cons b sh')
    with Cons.prems Cons.IH[of sh'] show ?thesis
      by (simp add: log_diff_def spec_log_share_diff_def fl_sub_def)
  qed
qed

lemma map2_fl_add_Fin: "map2 fl_add (map Fin d) (map Fin df) = map Fin (vadd d df)"
proof (induction d arbitrary: df)
  case Nil
  show ?case by (simp add: vadd_def)
next
  case (Cons a d)
  then show ?case by (cases df) (simp_all add: vadd_def)
qed

lemma length_spec_log_share_diff:
  "length (spec_log_share_diff obs sh) = min (length obs) (length sh)"
  by (simp add: spec_log_share_diff_def)


lemma step_delta_Fin:
  assumes "\<forall>a \<in> set obs. 0 < a" and "lns = map (\<lambda>a. fl_log (Fin a)) obs"
    and "\<forall>k < n. sim (map Fin (spec_iterate S obs d k)) = map Fin (S (spec_iterate S obs d k))
                     \<and> (\<forall>x \<in> set (S (spec_iterate S obs d k)). 0 < x)"
  shows "(step_\<delta> sim lns ^^ n) (map Fin d) = map Fin (spec_iterate S obs d n)"
  using assms(3)
proof (induction n)
  case 0
  show ?case by simp
next
  case (Suc n)
  have "n < Suc n" by simp
  with Suc.prems have g: "sim (map Fin (spec_iterate S obs d n)) = map Fin (S (spec_iterate S obs d n))"
    "\<forall>x \<in> set (S (spec_iterate S obs d n)). 0 < x" by blast+
  from Suc.prems have "\<forall>k < n. sim (map Fin (spec_iterate S obs d k)) = map Fin (S (spec_iterate S obs d k))
                     \<and> (\<forall>x \<in> set (S (spec_iterate S obs d k)). 0 < x)"
    using less_Suc_eq by blast
  then have IH: "(step_\<delta> sim lns ^^ n) (map Fin d) = map Fin (spec_iterate S obs d n)"
    by (rule Suc.IH)
  have ld: "log_diff lns (map Fin (S (spec_iterate S obs d n)))
              = map Fin (spec_log_share_diff obs (S (spec_iterate S obs d n)))"
    unfolding assms(2) by (rule log_diff_Fin[OF assms(1) g(2)])
  have "(step_\<delta> sim lns ^^ Suc n) (map Fin d) = step_\<delta> sim lns (map Fin (spec_iterate S obs d n))"
    by (simp only: funpow.simps o_apply IH)
  also have "\<dots> = map2 fl_add (map Fin (spec_iterate S obs d n))
                      (log_diff lns (map Fin (S (spec_iterate S obs d n))))"
    by (simp only: step_\<delta>_def g(1))
  also have "\<dots> = map Fin (spec_iterate S obs d (Suc n))"
    by (simp only: ld map2_fl_add_Fin spec_iterate.simps vadd_def)
  finally show ?case .
qed

lemma diff_at_Fin:
  assumes "\<forall>a \<in> set obs. 0 < a" and "lns = map (\<lambda>a. fl_log (Fin a)) obs"
    and "\<forall>k \<le> n. sim (map Fin (spec_iterate S obs d k)) = map Fin (S (spec_iterate S obs d k))
                     \<and> (\<forall>x \<in> set (S (spec_iterate S obs d k)). 0 < x)"
  shows "diff_at sim lns (map Fin d) n
           = map Fin (spec_log_share_diff obs (S (spec_iterate S obs d n)))"
proof -
  from assms(3) have "\<forall>k < n. sim (map Fin (spec_iterate S obs d k)) = map Fin (S (spec_iterate S obs d k))
                     \<and> (\<forall>x \<in> set (S (spec_iterate S obs d k)). 0 < x)"
    using less_imp_le by blast
  then have st: "(step_\<delta> sim lns ^^ n) (map Fin d) = map Fin (spec_iterate S obs d n)"
    by (rule step_delta_Fin[OF assms(1,2)])
  from assms(3) have g:
    "sim (map Fin (spec_iterate S obs d n)) = map Fin (S (spec_iterate S obs d n))"
    "\<forall>x \<in> set (S (spec_iterate S obs d n)). 0 < x" by blast+
  have ld: "log_diff lns (map Fin (S (spec_iterate S obs d n)))
              = map Fin (spec_log_share_diff obs (S (spec_iterate S obs d n)))"
    unfolding assms(2) by (rule log_diff_Fin[OF assms(1) g(2)])
  show ?thesis
    by (simp only: diff_at_def st g(1) ld)
qed

subsection \<open>Evaluation on the one-product data set away from the fixed point\<close>

lemma fl_exp_mid: "- 700 \<le> a \<Longrightarrow> a \<le> 700 \<Longrightarrow> fl_exp (Fin a) = Fin (exp a)"
proof -
  assume lo: "- 700 \<le> a" and hi: "a \<le> 700"
  have "(700 :: real) < 709782712893384 / 10 ^ 12" by simp
  with hi have a: "\<not> 709782712893384 / 10 ^ 12 < a" by linarith
  have "(700 :: real) < 7451332191019412 / 10 ^ 13" by simp
  with lo have b: "\<not> a < - (7451332191019412 / 10 ^ 13)" by linarith
  show ?thesis by (simp only: fl_exp.simps a b if_False)
qed

lemma simulate_one_product:
  assumes "v st = [[1]]" "D st = [[0]]" "x2 st = [[1]]"
    "nmkt st = 1" "nbrand st = 1" "nsimind st = 1"
    and "- 700 \<le> x + t" "x + t \<le> 700"
  shows "simulate spec_BLP st [[t, b]] [Fin x] = [Fin (exp (x + t) / (1 + exp (x + t)))]"
proof -
  have "0 < 1 + exp (x + t)" by (simp add: add_pos_pos)
  then have nz: "1 + exp (x + t) \<noteq> 0" by simp
  show ?thesis
  using assms(1-6) fl_exp_mid[OF assms(7,8)] nz
  by (simp add: simulate_def spec_BLP_def spec_cal_mu_def spec_cal_s_def Let_def
      spec_cal_ind_choice_prob_def exp_Xb_def fl_mean_def fl_sum_def ncols_def
      del: fl_exp.simps)
qed


lemma ln_bounds:
  assumes "0 < (x :: real)"
  shows "1 - 1 / x \<le> ln x" "ln x \<le> x - 1"
proof -
  show "ln x \<le> x - 1" by (rule ln_le_minus_one[OF assms])
  have "ln (1 / x) \<le> 1 / x - 1" by (rule ln_le_minus_one) (simp add: assms)
  moreover have "ln (1 / x) = - ln x" using assms by (simp add: ln_divide_pos)
  ultimately show "1 - 1 / x \<le> ln x" by simp
qed

lemma one_share_first:
  "one_share (ln (1000003 / 1000000)) [0] = [1000003 / 2000003]"
  by (simp add: one_share_def)

lemma log_share_diff_first:
  "spec_log_share_diff [1 / 2] [1000003 / 2000003] = [ln (2000003 / 2000006)]"
proof -
  have "ln (1 / 2 :: real) - ln (1000003 / 2000003) = ln ((1 / 2) / (1000003 / 2000003))"
    by (rule ln_divide_pos[symmetric]) simp_all
  also have "((1 / 2) / (1000003 / 2000003) :: real) = 2000003 / 2000006" by simp
  finally show ?thesis by (simp add: spec_log_share_diff_def)
qed

lemma one_share_second:
  "one_share (ln (1000003 / 1000000)) [ln (2000003 / 2000006)] = [2000003 / 4000003]"
proof -
  have "exp (ln (2000003 / 2000006) + ln (1000003 / 1000000 :: real))
          = (2000003 / 2000006) * (1000003 / 1000000)"
    by (simp add: exp_add)
  also have "\<dots> = 2000003 / 2000000" by simp
  finally have e: "exp (ln (2000003 / 2000006) + ln (1000003 / 1000000 :: real))
          = 2000003 / 2000000" .
  have "exp (ln (2000003 / 2000006) + ln (1000003 / 1000000 :: real))
          / (1 + exp (ln (2000003 / 2000006) + ln (1000003 / 1000000))) = 2000003 / 4000003"
    unfolding e by simp
  then show ?thesis by (simp only: one_share_def list.map)
qed

lemma log_share_diff_second:
  "spec_log_share_diff [1 / 2] [2000003 / 4000003] = [ln (4000003 / 4000006)]"
proof -
  have "ln (1 / 2 :: real) - ln (2000003 / 4000003) = ln ((1 / 2) / (2000003 / 4000003))"
    by (rule ln_divide_pos[symmetric]) simp_all
  also have "((1 / 2) / (2000003 / 4000003) :: real) = 4000003 / 4000006" by simp
  finally show ?thesis by (simp add: spec_log_share_diff_def)
qed

lemma first_difference_bounds:
  "ln (2000003 / 2000006 :: real) \<le> - (3 / 2000006)" "- 1 \<le> ln (2000003 / 2000006 :: real)"
proof -
  from ln_bounds[of "2000003 / 2000006 :: real"]
  have "1 - 1 / (2000003 / 2000006) \<le> ln (2000003 / 2000006 :: real)"
    "ln (2000003 / 2000006 :: real) \<le> 2000003 / 2000006 - 1" by simp_all
  then show "ln (2000003 / 2000006 :: real) \<le> - (3 / 2000006)"
    "- 1 \<le> ln (2000003 / 2000006 :: real)" by simp_all
qed

lemma second_difference_bounds:
  "ln (4000003 / 4000006 :: real) \<le> 0" "- (3 / 4000003) \<le> ln (4000003 / 4000006 :: real)"
proof -
  from ln_bounds[of "4000003 / 4000006 :: real"]
  have "1 - 1 / (4000003 / 4000006) \<le> ln (4000003 / 4000006 :: real)"
    "ln (4000003 / 4000006 :: real) \<le> 4000003 / 4000006 - 1" by simp_all
  then show "ln (4000003 / 4000006 :: real) \<le> 0"
    "- (3 / 4000003) \<le> ln (4000003 / 4000006 :: real)" by simp_all
qed

lemma shift_bounds: "0 \<le> ln (1000003 / 1000000 :: real)" "ln (1000003 / 1000000 :: real) \<le> 1"
proof -
  from ln_bounds[of "1000003 / 1000000 :: real"]
  have "1 - 1 / (1000003 / 1000000) \<le> ln (1000003 / 1000000 :: real)"
    "ln (1000003 / 1000000 :: real) \<le> 1000003 / 1000000 - 1" by simp_all
  then show "0 \<le> ln (1000003 / 1000000 :: real)" "ln (1000003 / 1000000 :: real) \<le> 1"
    by simp_all
qed

lemma not_converged_first: "\<not> spec_converged (1 / 10 ^ 6) [ln (2000003 / 2000006)]"
proof -
  have "(1 / 10 ^ 6 :: real) \<le> 3 / 2000006" by simp
  with first_difference_bounds(1) have "1 / 10 ^ 6 \<le> \<bar>ln (2000003 / 2000006 :: real)\<bar>"
    by linarith
  then show ?thesis by (simp add: spec_converged_def)
qed

lemma converged_second: "spec_converged (1 / 10 ^ 6) [ln (4000003 / 4000006)]"
proof -
  have "(3 / 4000003 :: real) < 1 / 10 ^ 6" by simp
  with second_difference_bounds have a: "\<bar>ln (4000003 / 4000006 :: real)\<bar> < 1 / 10 ^ 6"
    by linarith
  have "(1 / 10 ^ 6 :: real) < 1 / 1000" by simp
  with a have "\<bar>ln (4000003 / 4000006 :: real)\<bar> < 1 / 1000" by linarith
  with a show ?thesis by (simp add: spec_converged_def)
qed


lemma simulate_one_share:
  assumes "v st = [[1]]" "D st = [[0]]" "x2 st = [[1]]"
    "nmkt st = 1" "nbrand st = 1" "nsimind st = 1"
    and "- 700 \<le> x + t" "x + t \<le> 700"
  shows "simulate spec_BLP st [[t, b]] (map Fin [x]) = map Fin (one_share t [x])
         \<and> length (one_share t [x]) = 1 \<and> (\<forall>u \<in> set (one_share t [x]). 0 < u)"
proof -
  have "0 < exp (x + t) / (1 + exp (x + t))"
    by (intro divide_pos_pos add_pos_pos) simp_all
  then show ?thesis
    using simulate_one_product[OF assms, of b] by (simp add: one_share_def)
qed

lemma one_share_iterates:
  "spec_iterate (one_share (ln (1000003 / 1000000))) [1 / 2] [0] 0 = [0]"
  "spec_log_share_diff [1 / 2]
     (one_share (ln (1000003 / 1000000))
        (spec_iterate (one_share (ln (1000003 / 1000000))) [1 / 2] [0] 0))
     = [ln (2000003 / 2000006)]"
  "spec_iterate (one_share (ln (1000003 / 1000000))) [1 / 2] [0] (Suc 0)
     = [ln (2000003 / 2000006)]"
  "one_share (ln (1000003 / 1000000))
     (spec_iterate (one_share (ln (1000003 / 1000000))) [1 / 2] [0] (Suc 0))
     = [2000003 / 4000003]"
  "spec_log_share_diff [1 / 2]
     (one_share (ln (1000003 / 1000000))
        (spec_iterate (one_share (ln (1000003 / 1000000))) [1 / 2] [0] (Suc 0)))
     = [ln (4000003 / 4000006)]"
  "spec_iterate (one_share (ln (1000003 / 1000000))) [1 / 2] [0] (Suc (Suc 0))
     = [ln (2000003 / 2000006) + ln (4000003 / 4000006)]"
proof -
  let ?S = "one_share (ln (1000003 / 1000000))"
  show i0: "spec_iterate ?S [1 / 2] [0] 0 = [0]" by simp
  show d0: "spec_log_share_diff [1 / 2] (?S (spec_iterate ?S [1 / 2] [0] 0))
              = [ln (2000003 / 2000006)]"
    by (simp only: i0 one_share_first log_share_diff_first)
  have "spec_iterate ?S [1 / 2] [0] (Suc 0) = map2 (+) [0] [ln (2000003 / 2000006)]"
    by (simp only: spec_iterate.simps(2) d0) (simp only: i0)
  then show i1: "spec_iterate ?S [1 / 2] [0] (Suc 0) = [ln (2000003 / 2000006)]"
    by simp
  show s1: "?S (spec_iterate ?S [1 / 2] [0] (Suc 0)) = [2000003 / 4000003]"
    by (simp only: i1 one_share_second)
  show d1: "spec_log_share_diff [1 / 2] (?S (spec_iterate ?S [1 / 2] [0] (Suc 0)))
              = [ln (4000003 / 4000006)]"
    by (simp only: s1 log_share_diff_second)
  have "spec_iterate ?S [1 / 2] [0] (Suc (Suc 0))
          = map2 (+) [ln (2000003 / 2000006)] [ln (4000003 / 4000006)]"
    by (simp only: spec_iterate.simps(2)[of _ _ _ "Suc 0"] d1) (simp only: i1)
  then show "spec_iterate ?S [1 / 2] [0] (Suc (Suc 0))
     = [ln (2000003 / 2000006) + ln (4000003 / 4000006)]"
    by simp
qed

section \<open>The claims\<close>

subsection \<open>C1\<close>

text \<open>
  C1. For every candidate for which the contraction mapping returns a finite \<open>\<delta>\<close>,
  \<^verbatim>\<open>GMM\<close> returns \<open>\<xi>\<^sup>T Z W\<^sup>-\<^sup>1 Z\<^sup>T \<xi>\<close>, where \<open>W = Z\<^sup>T Z\<close>,
  \<open>\<theta>1 = (x1\<^sup>T Z W\<^sup>-\<^sup>1 Z\<^sup>T x1)\<^sup>-\<^sup>1 x1\<^sup>T Z W\<^sup>-\<^sup>1 Z\<^sup>T \<delta>\<close> and \<open>\<xi> = \<delta> - x1 \<theta>1\<close>; the code
  never forms \<open>W\<^sup>-\<^sup>1\<close> but solves against the triangular factor of \<open>Z\<^sup>T Z\<close> that the
  instance stores, which the call leaves unchanged. The inverses exist: \<open>W\<^sup>-\<^sup>1\<close> and
  \<open>A\<^sup>-\<^sup>1\<close> stand for any two-sided inverses.
\<close>

theorem GMM_returns_quadratic_form:
  assumes set: "GMM_set_\<theta> st c = (Inr th, st1)" and cols: "\<not> no_cols th"
    and contraction:
      "cal_\<delta> E (st1\<lparr>etol := adaptive_etol (GMM_diff st1)\<rparr>) th = Some (Inr (map Fin d), st2)"
    and wf: "wf_linear N q p st" and len: "length d = N"
    and Wi: "inverse_of q (matmul (mT (Z st)) (Z st)) Winv"
    and Ai: "inverse_of p (spec_A (Z st) (x1 st) Winv) Ainv"
  shows "\<exists>st'. GMM E st c = Some (Inr (spec_objective (Z st) (x1 st) Winv Ainv d), st')
           \<and> \<delta> st' = map Fin d
           \<and> \<theta>1 st' = Some (spec_theta1 (Z st) (x1 st) Winv Ainv d)
           \<and> \<xi> st' = Some (spec_xi (Z st) (x1 st) Winv Ainv d)
           \<and> LinvW st' = LinvW st"
proof -
  from GMM_set_theta_linear_fields[of st c] set
  have f1: "Z st1 = Z st" "x1 st1 = x1 st" "Z_x1 st1 = Z_x1 st" "LinvW st1 = LinvW st"
    by simp_all
  from cal_delta_linear_fields[OF contraction] f1
  have f2: "Z st2 = Z st" "x1 st2 = x1 st" "Z_x1 st2 = Z_x1 st" "LinvW st2 = LinvW st"
    by simp_all
  have wf2: "wf_linear N q p st2"
    using wf wf_linear_cong[OF f2] by simp
  have d2: "\<delta> st2 = map Fin d"
    by (rule cal_delta_result_is_delta[OF contraction])
  from GMM_linear_spec[OF wf2 _ _ len, of Winv Ainv] Wi Ai
  have lin: "GMM_linear st2 d =
           (Inr (spec_objective (Z st) (x1 st) Winv Ainv d),
            st2\<lparr>\<theta>1 := Some (spec_theta1 (Z st) (x1 st) Winv Ainv d),
               \<xi> := Some (spec_xi (Z st) (x1 st) Winv Ainv d),
               GMM_diff := \<bar>GMM_old st2 - spec_objective (Z st) (x1 st) Winv Ainv d\<bar>,
               GMM_old := spec_objective (Z st) (x1 st) Winv Ainv d\<rparr>)"
    by (simp add: f2)
  have "GMM E st c = Some (GMM_linear st2 d)"
    using set cols contraction by (simp add: GMM_def fin_list_map_Fin no_nan_map_Fin)
  with lin d2 f2(4) show ?thesis by simp
qed


theorem GMM_returns_quadratic_form_witness:
  "GMM_set_\<theta> two_markets (Mat [[1, 0]]) = (Inr [[1, 0]], two_markets_set)
   \<and> \<not> no_cols [[1, 0]]
   \<and> cal_\<delta> spec_BLP (two_markets_set\<lparr>etol := adaptive_etol (GMM_diff two_markets_set)\<rparr>) [[1, 0]]
       = Some (Inr (map Fin [0, ln (1 / 2)]), two_markets_solved)
   \<and> wf_linear 2 2 1 two_markets
   \<and> inverse_of 2 (matmul (mT (Z two_markets)) (Z two_markets)) [[1, 0], [0, 1]]
   \<and> inverse_of 1 (spec_A (Z two_markets) (x1 two_markets) [[1, 0], [0, 1]]) [[1 / 2]]
   \<and> (\<exists>st'. GMM spec_BLP two_markets (Mat [[1, 0]]) = Some (Inr ((ln (1 / 2))\<^sup>2 / 2), st')
          \<and> \<xi> st' = Some (spec_xi (Z two_markets) (x1 two_markets) [[1, 0], [0, 1]] [[1 / 2]]
                              [0, ln (1 / 2)]))"
proof -
  have a: "GMM_set_\<theta> two_markets (Mat [[1, 0]]) = (Inr [[1, 0]], two_markets_set)"
    by (simp add: GMM_set_theta_first_row2 two_markets_def two_markets_set_def)
  have b: "\<not> no_cols [[1, 0]]"
    by (simp add: no_cols_def)
  have c: "cal_\<delta> spec_BLP (two_markets_set\<lparr>etol := adaptive_etol (GMM_diff two_markets_set)\<rparr>)
             [[1, 0]]
           = Some (Inr (map Fin [0, ln (1 / 2)]), two_markets_solved)"
    by (subst cal_delta_two_markets)
       (simp_all add: two_markets_def two_markets_set_def two_markets_solved_def adaptive_etol_def)
  have len: "length [0, ln (1 / 2 :: real)] = 2" by simp
  from GMM_returns_quadratic_form[OF a b c two_markets_wf len two_markets_W two_markets_A]
  show ?thesis
    using a b c two_markets_wf two_markets_W two_markets_A
    by (auto simp add: two_markets_objective)
qed

subsection \<open>C2\<close>

text \<open>
  C2. On an instance as \<^verbatim>\<open>BLP.__init__\<close> builds it, with positive observed shares, and
  as long as the simulated shares \<open>S \<delta>\<close> are finite and positive while the loop runs:
  every iteration adds to \<open>\<delta>\<close>, product by product, the difference
  \<open>ln (observed share) - ln (simulated share)\<close>, and \<^verbatim>\<open>cal_\<delta>\<close> returns exactly at the
  first iteration \<open>n\<close> at which the maximum absolute difference is below \<open>etol\<close> and the
  mean absolute difference is below \<open>1e-3\<close>; what it returns and stores is \<open>\<delta>\<close> after
  \<open>n + 1\<close> additions, and the buffer \<open>s\<close> holds the shares simulated last.
\<close>

theorem cal_delta_adds_log_share_difference_until_dual_criterion:
  assumes cols: "\<not> no_cols th"
    and lns: "ln_s_jt st = map (\<lambda>a. fl_log (Fin a)) (s_jt st)"
    and pos: "\<forall>a \<in> set (s_jt st). 0 < a" and ne: "s_jt st \<noteq> []"
    and d0: "\<delta> st = map Fin d"
    and shapes: "length d = length (s_jt st)" "length (s st) = length (s_jt st)"
    and sim: "\<forall>m. (\<forall>k<m. \<not> spec_converged (etol st)
                        (spec_log_share_diff (s_jt st) (S (spec_iterate S (s_jt st) d k))))
              \<longrightarrow> simulate E st th (map Fin (spec_iterate S (s_jt st) d m))
                    = map Fin (S (spec_iterate S (s_jt st) d m))
                  \<and> length (S (spec_iterate S (s_jt st) d m)) = length (s_jt st)
                  \<and> (\<forall>x \<in> set (S (spec_iterate S (s_jt st) d m)). 0 < x)"
  shows "cal_\<delta> E st th = Some (Inr d', st') \<longleftrightarrow>
          (\<exists>n. (\<forall>k<n. \<not> spec_converged (etol st)
                        (spec_log_share_diff (s_jt st) (S (spec_iterate S (s_jt st) d k))))
             \<and> spec_converged (etol st)
                 (spec_log_share_diff (s_jt st) (S (spec_iterate S (s_jt st) d n)))
             \<and> d' = map Fin (spec_iterate S (s_jt st) d (Suc n))
             \<and> st' = st\<lparr>\<delta> := d', s := map Fin (S (spec_iterate S (s_jt st) d n))\<rparr>)"
  (is "?L \<longleftrightarrow> ?R")
proof -
  let ?sim = "simulate E st th" and ?lns = "ln_s_jt st" and ?obs = "s_jt st"
  let ?it = "\<lambda>k. spec_iterate S ?obs d k"
  let ?sd = "\<lambda>k. spec_log_share_diff ?obs (S (?it k))"
  let ?cv = "\<lambda>k. spec_converged (etol st) (?sd k)"
  have good: "\<forall>k \<le> m. ?sim (map Fin (?it k)) = map Fin (S (?it k))
                      \<and> (\<forall>x \<in> set (S (?it k)). 0 < x)"
    if "\<forall>k<m. \<not> ?cv k" for m
  proof (intro allI impI)
    fix k assume "k \<le> m"
    with that have "\<forall>j<k. \<not> ?cv j" by simp
    with sim show "?sim (map Fin (?it k)) = map Fin (S (?it k))
                      \<and> (\<forall>x \<in> set (S (?it k)). 0 < x)" by blast
  qed
  have key: "diff_at ?sim ?lns (\<delta> st) m = map Fin (?sd m) \<and> ?sd m \<noteq> []
             \<and> (step_\<delta> ?sim ?lns ^^ m) (\<delta> st) = map Fin (?it m)
             \<and> ?sim (map Fin (?it m)) = map Fin (S (?it m))"
    if g: "\<forall>k<m. \<not> ?cv k" for m
  proof -
    note gd = good[OF g]
    have a: "diff_at ?sim ?lns (\<delta> st) m = map Fin (?sd m)"
      unfolding d0 by (rule diff_at_Fin[OF pos lns gd])
    from gd have "\<forall>k < m. ?sim (map Fin (?it k)) = map Fin (S (?it k))
                      \<and> (\<forall>x \<in> set (S (?it k)). 0 < x)"
      using less_imp_le by blast
    then have b: "(step_\<delta> ?sim ?lns ^^ m) (\<delta> st) = map Fin (?it m)"
      unfolding d0 by (rule step_delta_Fin[OF pos lns])
    from sim g have "length (S (?it m)) = length ?obs" by blast
    then have "length (?sd m) = length ?obs"
      by (simp add: length_spec_log_share_diff)
    then have c: "?sd m \<noteq> []"
      using ne by (metis length_0_conv)
    from gd have e: "?sim (map Fin (?it m)) = map Fin (S (?it m))" by blast
    from a b c e show ?thesis by simp
  qed
  have next_it: "(step_\<delta> ?sim ?lns ^^ Suc m) (\<delta> st) = map Fin (?it (Suc m))"
    if g: "\<forall>k<m. \<not> ?cv k" for m
  proof -
    from good[OF g] have "\<forall>k < Suc m. ?sim (map Fin (?it k)) = map Fin (S (?it k))
                      \<and> (\<forall>x \<in> set (S (?it k)). 0 < x)"
      using less_Suc_eq_le by blast
    then show ?thesis
      unfolding d0 by (rule step_delta_Fin[OF pos lns])
  qed
  note old = cal_delta_returns_iff[of E st th d' st']
  show ?thesis
  proof
    assume ?L
    with old obtain n where
      n: "\<forall>m<n. iterating (etol st) (diff_at ?sim ?lns (\<delta> st) m)"
         "converged (etol st) (diff_at ?sim ?lns (\<delta> st) n)"
         "d' = (step_\<delta> ?sim ?lns ^^ Suc n) (\<delta> st)"
         "st' = st\<lparr>\<delta> := d', s := ?sim ((step_\<delta> ?sim ?lns ^^ n) (\<delta> st))\<rparr>"
      by blast
    have nc: "\<not> ?cv k" if "k < n" for k
      using that
    proof (induction k rule: less_induct)
      case (less k)
      then have g: "\<forall>j<k. \<not> ?cv j" by simp
      from n(1) less.prems have "iterating (etol st) (diff_at ?sim ?lns (\<delta> st) k)" by blast
      with key[OF g] show ?case by (simp add: iterating_Fin)
    qed
    then have g: "\<forall>k<n. \<not> ?cv k" by blast
    from key[OF g] n(2) have cv: "?cv n" by (simp add: converged_Fin)
    from n(3) next_it[OF g] have d': "d' = map Fin (?it (Suc n))" by simp
    from n(4) key[OF g] have "st' = st\<lparr>\<delta> := d', s := map Fin (S (?it n))\<rparr>" by simp
    with g cv d' show ?R by blast
  next
    assume ?R
    then obtain n where g: "\<forall>k<n. \<not> ?cv k" and cv: "?cv n"
      and d': "d' = map Fin (?it (Suc n))"
      and st': "st' = st\<lparr>\<delta> := d', s := map Fin (S (?it n))\<rparr>"
      by blast
    have it: "iterating (etol st) (diff_at ?sim ?lns (\<delta> st) m)" if "m < n" for m
    proof -
      from g that have gm: "\<forall>k<m. \<not> ?cv k" by simp
      from g that have "\<not> ?cv m" by simp
      with key[OF gm] show ?thesis by (simp add: iterating_Fin)
    qed
    from key[OF g] cv have
      "\<not> list_ex isnan (diff_at ?sim ?lns (\<delta> st) n)"
      "diff_at ?sim ?lns (\<delta> st) n \<noteq> []"
      "converged (etol st) (diff_at ?sim ?lns (\<delta> st) n)"
      by (simp_all add: no_nan_map_Fin converged_Fin)
    moreover from d' next_it[OF g] have "d' = (step_\<delta> ?sim ?lns ^^ Suc n) (\<delta> st)" by simp
    moreover from st' key[OF g]
    have "st' = st\<lparr>\<delta> := d', s := ?sim ((step_\<delta> ?sim ?lns ^^ n) (\<delta> st))\<rparr>" by simp
    ultimately show ?L using old cols it by blast
  qed
qed

text \<open>
  On the one-product instance with characteristic 1, as \<^verbatim>\<open>BLP.__init__\<close> leaves it
  (\<open>\<delta> = [0]\<close>, \<open>etol = 1e-6\<close>), at the parameter \<open>ln 1.000003\<close>: the first difference
  \<open>ln (2000003 / 2000006)\<close> is about \<open>-1.5e-6\<close> and fails the test, the second
  \<open>ln (4000003 / 4000006)\<close> is about \<open>-7.5e-7\<close> and passes it, and the call returns the
  sum of the two.
\<close>

theorem cal_delta_adds_log_share_difference_until_dual_criterion_witness:
  "BLP_init (one_product 1) = Inr (one_state 1)
   \<and> cal_\<delta> spec_BLP (one_state 1) [[ln (1000003 / 1000000), 0]]
     = Some (Inr [Fin (ln (2000003 / 2000006) + ln (4000003 / 4000006))],
             (one_state 1)\<lparr>\<delta> := [Fin (ln (2000003 / 2000006) + ln (4000003 / 4000006))],
                            s := [Fin (2000003 / 4000003)]\<rparr>)
   \<and> \<not> spec_converged (etol (one_state 1)) [ln (2000003 / 2000006)]
   \<and> spec_converged (etol (one_state 1)) [ln (4000003 / 4000006)]"
proof -
  let ?st = "one_state 1"
  let ?t = "ln (1000003 / 1000000 :: real)"
  let ?S = "one_share ?t"
  let ?it = "\<lambda>k. spec_iterate ?S (s_jt ?st) [0] k"
  let ?cv = "\<lambda>k. spec_converged (etol ?st) (spec_log_share_diff (s_jt ?st) (?S (?it k)))"
  have sj: "s_jt ?st = [1 / 2]" by (simp add: one_state_def)
  have e: "etol ?st = 1 / 10 ^ 6" by (simp add: one_state_def)
  have fields: "v ?st = [[1]]" "D ?st = [[0]]" "x2 ?st = [[1]]"
    "nmkt ?st = 1" "nbrand ?st = 1" "nsimind ?st = 1"
    by (simp_all add: one_state_def)
  have cols: "\<not> no_cols [[?t, 0]]" by (simp add: no_cols_def)
  have lns: "ln_s_jt ?st = map (\<lambda>a. fl_log (Fin a)) (s_jt ?st)" by (simp add: one_state_def)
  have pos: "\<forall>a \<in> set (s_jt ?st). 0 < a" by (simp add: one_state_def)
  have ne: "s_jt ?st \<noteq> []" by (simp add: one_state_def)
  have d0: "\<delta> ?st = map Fin [0]" by (simp add: one_state_def)
  have shapes: "length [0 :: real] = length (s_jt ?st)" "length (s ?st) = length (s_jt ?st)"
    by (simp_all add: one_state_def)
  have n0: "\<not> spec_converged (etol ?st) [ln (2000003 / 2000006)]"
    unfolding e by (rule not_converged_first)
  have c1: "spec_converged (etol ?st) [ln (4000003 / 4000006)]"
    unfolding e by (rule converged_second)
  have cv0: "\<not> ?cv 0"
    unfolding sj one_share_iterates one_share_first log_share_diff_first using n0 .
  have cv1: "?cv (Suc 0)"
    unfolding sj one_share_iterates one_share_second log_share_diff_second using c1 .
  have b0: "- 700 \<le> 0 + ?t" "0 + ?t \<le> 700"
    using shift_bounds by linarith+
  have b1: "- 700 \<le> ln (2000003 / 2000006) + ?t" "ln (2000003 / 2000006) + ?t \<le> 700"
    using shift_bounds first_difference_bounds by linarith+
  have sim: "\<forall>m. (\<forall>k<m. \<not> ?cv k)
              \<longrightarrow> simulate spec_BLP ?st [[?t, 0]] (map Fin (?it m)) = map Fin (?S (?it m))
                  \<and> length (?S (?it m)) = length (s_jt ?st)
                  \<and> (\<forall>x \<in> set (?S (?it m)). 0 < x)"
  proof (intro allI impI)
    fix m assume g: "\<forall>k<m. \<not> ?cv k"
    consider "m = 0" | "m = Suc 0" | "Suc 0 < m" by linarith
    then show "simulate spec_BLP ?st [[?t, 0]] (map Fin (?it m)) = map Fin (?S (?it m))
                  \<and> length (?S (?it m)) = length (s_jt ?st)
                  \<and> (\<forall>x \<in> set (?S (?it m)). 0 < x)"
    proof cases
      case 1
      have i: "?it m = [0]" unfolding 1 sj by (rule one_share_iterates(1))
      show ?thesis
        unfolding i using simulate_one_share[OF fields b0, of 0] by (simp add: sj)
    next
      case 2
      have i: "?it m = [ln (2000003 / 2000006)]" unfolding 2 sj by (rule one_share_iterates(3))
      show ?thesis
        unfolding i using simulate_one_share[OF fields b1, of 0] by (simp add: sj)
    next
      case 3
      with g cv1 show ?thesis by blast
    qed
  qed
  have R: "\<exists>n. (\<forall>k<n. \<not> ?cv k) \<and> ?cv n
             \<and> map Fin (?it (Suc (Suc 0))) = map Fin (?it (Suc n))
             \<and> ?st\<lparr>\<delta> := map Fin (?it (Suc (Suc 0))), s := map Fin (?S (?it (Suc 0)))\<rparr>
                = ?st\<lparr>\<delta> := map Fin (?it (Suc (Suc 0))), s := map Fin (?S (?it n))\<rparr>"
    using cv0 cv1 by (intro exI[of _ "Suc 0"]) simp
  from iffD2[OF cal_delta_adds_log_share_difference_until_dual_criterion
               [OF cols lns pos ne d0 shapes sim] R]
  have "cal_\<delta> spec_BLP ?st [[?t, 0]]
          = Some (Inr (map Fin (?it (Suc (Suc 0)))),
                  ?st\<lparr>\<delta> := map Fin (?it (Suc (Suc 0))), s := map Fin (?S (?it (Suc 0)))\<rparr>)" .
  then have "cal_\<delta> spec_BLP ?st [[?t, 0]]
     = Some (Inr [Fin (ln (2000003 / 2000006) + ln (4000003 / 4000006))],
             ?st\<lparr>\<delta> := [Fin (ln (2000003 / 2000006) + ln (4000003 / 4000006))],
                   s := [Fin (2000003 / 4000003)]\<rparr>)"
    by (simp only: sj one_share_iterates one_share_second list.map)
  with n0 c1 BLP_init_one_product[of 1] show ?thesis by blast
qed


subsection \<open>C3\<close>

text \<open>
  C3. A difference that is not a number must not crash the objective evaluation: the
  caller is to return the sentinel \<open>1e+10\<close>. The code does not do so. On the
  one-product data set with characteristic 1, the candidate \<open>[[1000, 0]]\<close> makes
  \<^verbatim>\<open>np.exp\<close> overflow, the simulated share is \<^verbatim>\<open>nan\<close>, \<^verbatim>\<open>cal_\<delta>\<close> raises, and
  \<^verbatim>\<open>GMM\<close>, which has no handler, lets the exception through instead of returning
  the sentinel.
\<close>

theorem GMM_nan_in_diffs_raises:
  "BLP_init (one_product 1) = Inr (one_state 1)
   \<and> GMM spec_BLP (one_state 1) (Mat [[1000, 0]])
       = Some (Inl Exception_nan_in_diffs, one_state_failed)"
  by (simp add: BLP_init_one_product GMM_one_state_overflow)

subsection \<open>C4\<close>

text \<open>
  C4. After an objective evaluation, \<^verbatim>\<open>gradient_GMM\<close> is to return the gradient
  \<open>2 J\<^sup>T Z W\<^sup>-\<^sup>1 Z\<^sup>T \<xi>\<close>. The code does not return: its first statement reads the
  attribute \<^verbatim>\<open>ix_\<theta>\<close>, which no method assigns (the objective assigns \<^verbatim>\<open>ix_\<theta>_T\<close>), so
  the call raises AttributeError.
\<close>

theorem gradient_GMM_raises_AttributeError:
  "BLP_init (one_product 0) = Inr (one_state 0)
   \<and> GMM spec_BLP (one_state 0) (Mat [[1, 0]]) = Some (Inr 0, one_state_1st)
   \<and> gradient_GMM spec_BLP one_state_1st (Vec [1])
       = (Inl (AttributeError ''ix_theta''), one_state_1st)"
  by (simp add: BLP_init_one_product GMM_one_state_first gradient_GMM_without_ix_theta
      one_state_1st_def one_state_sel)

subsection \<open>C9\<close>

text \<open>
  C9, as stated: once the mask is set, the entries of the parameter matrix outside it
  remain zero across all later objective evaluations. This fails for a later
  evaluation at a matrix, which overwrites the whole of \<open>\<theta>\<close>: after \<open>[[1, 0]]\<close> has
  set the mask to the single position \<open>(0, 0)\<close>, the evaluation at \<open>[[1, 5]]\<close> leaves
  5 at a position outside the mask.
\<close>

theorem later_matrix_call_overwrites_masked_zero:
  "GMM spec_BLP (one_state 0) (Mat [[1, 0]]) = Some (Inr 0, one_state_1st)
   \<and> GMM spec_BLP one_state_1st (Mat [[1, 5]]) = Some (Inr 0, one_state_2nd)
   \<and> ix_\<theta>_T one_state_2nd = Some [(0, 0)]
   \<and> \<theta> one_state_2nd = Some [[1, 5]]"
proof -
  have "ix_\<theta>_T one_state_2nd = Some [(0, 0)]" "\<theta> one_state_2nd = Some [[1, 5]]"
    by (simp_all add: one_state_2nd_def one_state_1st_def)
  with GMM_one_state_first GMM_one_state_second show ?thesis
    by simp
qed

text \<open>
  C9, amended: the mask is set once, from the nonzero pattern of the first parameter
  matrix passed to the objective, and no later objective evaluation changes it,
  whatever the form of its candidate; every later vectorized evaluation writes only
  into the mask positions, so the entries that the first matrix holds at zero remain
  zero across any sequence of later vectorized objective evaluations.
\<close>

theorem mask_fixed_and_zeros_kept_by_vectorized_calls:
  assumes "\<theta> st = None" "ix_\<theta>_T st = None" "rectangular M"
    and "GMM E st (Mat M) = Some (r, st1)"
    and "GMM_run E st1 cs = Some st2"
  shows "ix_\<theta>_T st2 = Some (nonzero_T M)
         \<and> ((\<exists>vs. cs = map Vec vs) \<longrightarrow> (\<exists>th. \<theta> st2 = Some th \<and> keeps_zeros M th))"
proof (intro conjI impI)
  have inv: "mask_inv M st1"
    by (rule mask_inv_first[OF assms(1-4)])
  then show "ix_\<theta>_T st2 = Some (nonzero_T M)"
    using GMM_run_keeps_mask[OF _ assms(5)] by (simp add: mask_inv_def)
  assume "\<exists>vs. cs = map Vec vs"
  then obtain vs where "cs = map Vec vs" ..
  with mask_inv_run[OF inv] assms(5) have "mask_inv M st2" by simp
  then show "\<exists>th. \<theta> st2 = Some th \<and> keeps_zeros M th"
    by (simp add: mask_inv_def)
qed

theorem mask_fixed_and_zeros_kept_by_vectorized_calls_witness:
  "\<theta> (one_state 0) = None \<and> ix_\<theta>_T (one_state 0) = None \<and> rectangular [[1, 0 :: real]]
   \<and> GMM spec_BLP (one_state 0) (Mat [[1, 0]]) = Some (Inr 0, one_state_1st)
   \<and> GMM_run spec_BLP one_state_1st [Vec [2]] = Some one_state_vec
   \<and> ix_\<theta>_T one_state_vec = Some (nonzero_T [[1, 0]])
   \<and> (\<exists>th. \<theta> one_state_vec = Some th \<and> keeps_zeros [[1, 0]] th)"
proof -
  have a: "\<theta> (one_state 0) = None" "ix_\<theta>_T (one_state 0) = None"
    by (simp_all add: one_state_sel)
  have b: "rectangular [[1, 0 :: real]]"
    by (simp add: rectangular_def ncols_def)
  have c: "GMM_run spec_BLP one_state_1st [Vec [2]] = Some one_state_vec"
    by (simp add: GMM_one_state_vec)
  have d: "\<exists>vs. [Vec [2]] = map Vec vs"
    by (rule exI[of _ "[[2]]"]) simp
  from mask_fixed_and_zeros_kept_by_vectorized_calls[OF a b GMM_one_state_first c] d a b c
    GMM_one_state_first
  show ?thesis by blast
qed

subsection \<open>C5\<close>

text \<open>
  C5. The Jacobian is to keep one column for each position of the parameter mask, that
  is, for each estimated nonlinear parameter. The code takes the columns from the
  nonzero entries of the parameter matrix it is given (line 307), not from the mask
  that \<^verbatim>\<open>GMM\<close>, \<^verbatim>\<open>cal_varcov\<close> and \<^verbatim>\<open>cal_se\<close> use. On the one-product instance, after
  the objective has been evaluated at \<open>[[1, 0]]\<close> and then at the vector \<open>[0]\<close>, the mask
  holds one position and the Jacobian has one row and no column; \<^verbatim>\<open>cal_varcov\<close> then
  returns a matrix of size one, where the linear and the nonlinear parameter call
  for size two.
\<close>

theorem cal_jacobian_drops_the_column_of_a_zero_parameter:
  "BLP_init (one_product 0) = Inr (one_state 0)
   \<and> GMM spec_BLP (one_state 0) (Mat [[1, 0]]) = Some (Inr 0, one_state_1st)
   \<and> GMM spec_BLP one_state_1st (Vec [0]) = Some (Inr 0, one_state_zero)
   \<and> ix_\<theta>_T one_state_zero = Some [(0, 0)]
   \<and> \<theta> one_state_zero = Some [[0, 0]]
   \<and> cal_jacobian spec_BLP one_state_zero [[0, 0]] = Inr [[]]
   \<and> cal_varcov spec_BLP one_state_zero [0] = (Inr [[0]], one_state_zero)"
  by (simp add: BLP_init_one_product GMM_one_state_first GMM_one_state_zero one_state_zero_sel
      jacobian_one_state_zero varcov_one_state_zero)

subsection \<open>C6\<close>

text \<open>
  C6. Given the vector of the estimated nonlinear parameters, \<^verbatim>\<open>cal_varcov\<close> writes it
  into \<open>\<theta>\<close> at the mask and returns the sandwich
  \<open>(G\<^sup>T W G)\<^sup>-\<^sup>1 G\<^sup>T W \<Omega> W G (G\<^sup>T W G)\<^sup>-\<^sup>1\<close>, where \<open>\<Omega>\<close> is the Gram matrix of \<open>Z\<close> scaled
  row-wise by \<open>\<xi>\<close>, \<open>G = Z\<^sup>T [x1, J]\<close> with \<open>J\<close> the Jacobian at the new \<open>\<theta>\<close>, and
  \<open>W = (Z\<^sup>T Z)\<^sup>-\<^sup>1\<close>. The code applies \<open>W\<close> by solving against the stored triangular factor
  of \<open>Z\<^sup>T Z\<close> and \<open>(G\<^sup>T W G)\<^sup>-\<^sup>1\<close> by two dense solves; \<open>Winv\<close> and \<open>Binv\<close> stand for any
  two-sided inverses of \<open>Z\<^sup>T Z\<close> and \<open>G\<^sup>T W G\<close>.
\<close>

theorem cal_varcov_returns_sandwich:
  assumes "\<xi> st = Some xi" "\<theta> st = Some th" "ix_\<theta>_T st = Some ix"
    and "assign_T th ix tv = Inr th'"
    and "cal_jacobian E (st\<lparr>\<theta> := Some th'\<rparr>) th' = Inr J"
    and "wf_linear N q p st" "0 < p + r" "is_mat N r J" "length xi = N"
    and "inverse_of q (matmul (mT (Z st)) (Z st)) Winv"
    and "inverse_of (p + r) (spec_B (spec_G (Z st) (x1 st) J) Winv) Binv"
  shows "cal_varcov E st tv
           = (Inr (spec_varcov (spec_G (Z st) (x1 st) J) (spec_Omega (Z st) xi) Winv Binv),
              st\<lparr>\<theta> := Some th'\<rparr>)"
  using cal_varcov_unfold[OF assms(1-5)] varcov_of_spec(1)[OF assms(6-11)] by simp

text \<open>
  On the data set whose products differ, at the parameter vector \<open>[1]\<close>: the Jacobian is
  \<open>[[-1], [-2]]\<close>, \<open>G = [[1, -1], [1, -2]]\<close>, \<open>(G\<^sup>T W G)\<^sup>-\<^sup>1 = [[5, 3], [3, 2]]\<close> and
  \<open>\<Omega>\<close> is a quarter of the identity.
\<close>

theorem cal_varcov_returns_sandwich_witness:
  "cal_varcov spec_BLP two_markets_estimated [1]
     = (Inr [[5 / 4, 3 / 4], [3 / 4, 1 / 2]], two_markets_estimated\<lparr>\<theta> := Some [[1, 0]]\<rparr>)"
  unfolding cal_varcov_returns_sandwich[OF two_markets_estimated_sel(1-3)
      two_markets_estimated_assign two_markets_estimated_jacobian two_markets_estimated_wf
      two_markets_estimated_shapes two_markets_estimated_W two_markets_estimated_B]
    two_markets_estimated_varcov
  by (rule refl)

subsection \<open>C7\<close>

text \<open>
  C7. Whenever the instance is well formed and \<open>G\<^sup>T W G\<close> is invertible, \<^verbatim>\<open>cal_varcov\<close>
  succeeds and the matrix it returns equals its own transpose and is positive
  semi-definite: \<open>x\<^sup>T V x \<ge> 0\<close> for every vector \<open>x\<close>, in exact arithmetic.
\<close>

theorem cal_varcov_symmetric_psd:
  assumes "\<xi> st = Some xi" "\<theta> st = Some th" "ix_\<theta>_T st = Some ix"
    and "assign_T th ix tv = Inr th'"
    and "cal_jacobian E (st\<lparr>\<theta> := Some th'\<rparr>) th' = Inr J"
    and "wf_linear N q p st" "0 < p + r" "is_mat N r J" "length xi = N"
    and "inverse_of q (matmul (mT (Z st)) (Z st)) Winv"
    and "inverse_of (p + r) (spec_B (spec_G (Z st) (x1 st) J) Winv) Binv"
  shows "\<exists>V. cal_varcov E st tv = (Inr V, st\<lparr>\<theta> := Some th'\<rparr>)
           \<and> is_mat (p + r) (p + r) V \<and> mT V = V
           \<and> (\<forall>x. length x = p + r \<longrightarrow> 0 \<le> dot x (matvec V x))"
proof -
  let ?C = "spec_root (Z st) xi (spec_G (Z st) (x1 st) J) Winv Binv"
  let ?V = "matmul (mT ?C) ?C"
  from assms(6) have N: "0 < N" by (simp add: wf_linear_def)
  note v = varcov_of_spec[OF assms(6-11)]
  have "cal_varcov E st tv = (Inr ?V, st\<lparr>\<theta> := Some th'\<rparr>)"
    using cal_varcov_unfold[OF assms(1-5)] v(1) v(2) by simp
  moreover have "is_mat (p + r) (p + r) ?V"
    by (rule is_mat_matmul[OF is_mat_mT[OF v(3) N] v(3) N])
  moreover have "mT ?V = ?V"
    by (rule gram_symmetric[OF v(3) N assms(7)])
  moreover have "\<forall>x. length x = p + r \<longrightarrow> 0 \<le> dot x (matvec ?V x)"
    using gram_psd[OF v(3) N assms(7)] by blast
  ultimately show ?thesis by blast
qed

text \<open>The same evaluation, with the quadratic form taken at \<open>[1, -2]\<close>.\<close>

theorem cal_varcov_symmetric_psd_witness:
  "\<exists>V. cal_varcov spec_BLP two_markets_estimated [1]
          = (Inr V, two_markets_estimated\<lparr>\<theta> := Some [[1, 0]]\<rparr>)
       \<and> is_mat (1 + 1) (1 + 1) V \<and> mT V = V \<and> 0 \<le> dot [1, - 2] (matvec V [1, - 2])"
proof -
  from cal_varcov_symmetric_psd[OF two_markets_estimated_sel(1-3) two_markets_estimated_assign
      two_markets_estimated_jacobian two_markets_estimated_wf two_markets_estimated_shapes
      two_markets_estimated_W two_markets_estimated_B]
  obtain V where V: "cal_varcov spec_BLP two_markets_estimated [1]
          = (Inr V, two_markets_estimated\<lparr>\<theta> := Some [[1, 0]]\<rparr>)"
    "is_mat (1 + 1) (1 + 1) V" "mT V = V"
    "\<forall>x. length x = 1 + 1 \<longrightarrow> 0 \<le> dot x (matvec V x)"
    by blast
  from V(4) have "0 \<le> dot [1, - 2] (matvec V [1, - 2])" by simp
  with V(1-3) show ?thesis by blast
qed

end
